theory Spec2Isabelle
  imports Main "HOL-Library.Word" "HOL-Library.Signed_Division"
begin

unbundle bit_operations_syntax

section \<open>Machine types\<close>

text \<open>
  The program is C++ on top of FreeType, HarfBuzz and ICU. The integer types it
  uses are declared by those libraries and by the platform; the embedding fixes
  the usual LP64 layout:
  \<^item> \<open>FT_Int\<close> and \<open>int\<close> are signed 32-bit, \<open>unsigned int\<close> is unsigned 32-bit;
  \<^item> \<open>FT_Pos\<close> is \<open>signed long\<close>, 64-bit;
  \<^item> \<open>unsigned char\<close> is a byte, \<open>UChar\<close> a 16-bit code unit.
  A word carries no sign: \<open>+\<close>, \<open>-\<close> and \<open>*\<close> wrap around, signed comparisons are
  \<open><s\<close> and \<open>\<le>s\<close>, and \<open>sint\<close>/\<open>uint\<close> read the value.
\<close>

type_synonym FT_Int = "32 word"
type_synonym FT_UInt = "32 word"
type_synonym FT_Pos = "64 word"
type_synonym byte = "8 word"
type_synonym UChar = "16 word"
type_synonym hb_codepoint_t = "32 word"

definition INT_MAX :: FT_Int where
  "INT_MAX = 2147483647"

definition INT_MIN :: FT_Int where
  "INT_MIN = - 2147483648"

text \<open>C's \<open>/\<close> on signed operands truncates toward zero.\<close>

definition sdiv_word :: "'a::len word \<Rightarrow> 'a word \<Rightarrow> 'a word" where
  "sdiv_word a b = word_of_int (sint a sdiv sint b)"

section \<open>DrawGlyph\<close>

text \<open>
  The fields of \<open>FT_Bitmap\<close> that \<open>DrawGlyph\<close> reads: \<open>rows\<close>, \<open>width\<close> (both
  \<open>unsigned int\<close>) and \<open>buffer\<close>. They carry the prefix \<open>bm_\<close> here because
  \<open>width\<close> is also a parameter of \<open>DrawGlyph\<close>.
\<close>

record FT_Bitmap =
  bm_rows :: FT_UInt
  bm_width :: FT_UInt
  bm_buffer :: "byte list"

text \<open>
  An access outside an array is undefined behaviour in C++; the embedding makes it
  a value, so that memory safety is something to prove.
\<close>

datatype fault = ImageOutOfBounds | BitmapOutOfBounds

text \<open>
  Line 33, \<open>image[j * width + i] |= glyphBitmap->buffer[q * glyphBitmap->width + p]\<close>.
  The destination index is computed in \<open>int\<close>; the source index in \<open>unsigned int\<close>,
  because \<open>glyphBitmap->width\<close> is unsigned.
\<close>

definition dst_index :: "FT_Int \<Rightarrow> FT_Int \<Rightarrow> FT_Int \<Rightarrow> int" where
  "dst_index width i j = sint (j * width + i)"

definition src_index :: "FT_Bitmap \<Rightarrow> FT_Int \<Rightarrow> FT_Int \<Rightarrow> nat" where
  "src_index glyphBitmap p q = unat (q * bm_width glyphBitmap + p)"

definition or_assign ::
  "byte list \<Rightarrow> FT_Int \<Rightarrow> FT_Bitmap \<Rightarrow> FT_Int \<Rightarrow> FT_Int \<Rightarrow> FT_Int \<Rightarrow> FT_Int \<Rightarrow> fault + byte list"
where
  "or_assign img width glyphBitmap i j p q =
     (let dst = dst_index width i j;
          src = src_index glyphBitmap p q
      in if \<not> src < length (bm_buffer glyphBitmap) then Inl BitmapOutOfBounds
         else if \<not> (0 \<le> dst \<and> dst < int (length img)) then Inl ImageOutOfBounds
         else Inr (img[nat dst := img ! nat dst OR bm_buffer glyphBitmap ! src]))"

lemma sint_succ_sless:
  fixes a b :: "'a::len word"
  assumes "a <s b"
  shows "sint (a + 1) = sint a + 1"
proof -
  have "sint a < sint b"
    using assms by (simp add: word_sless_alt)
  moreover have "sint b < 2 ^ (LENGTH('a) - 1)"
    by (rule sint_lt)
  moreover have "- (2 ^ (LENGTH('a) - 1)) \<le> sint a"
    by (rule sint_ge)
  ultimately have range:
    "- (2 ^ (LENGTH('a) - 1)) \<le> sint a + 1 \<and> sint a + 1 < 2 ^ (LENGTH('a) - 1)"
    by linarith
  have "a + 1 = word_of_int (sint a + 1)"
    by simp
  then have "sint (a + 1) = signed_take_bit (LENGTH('a) - 1) (sint a + 1)"
    by (simp only: sint_sbintrunc')
  also have "\<dots> = sint a + 1"
    using range by (simp add: signed_take_bit_int_eq_self)
  finally show ?thesis .
qed

lemma loop_measure_decreases:
  fixes a b :: "'a::len word"
  assumes "a <s b"
  shows "sint a < sint b \<and> sint a < sint (a + 1)"
  using assms sint_succ_sless [OF assms] by (simp add: word_sless_alt)

text \<open>
  The inner loop, lines 28 to 34: \<open>for (FT_Int j = y, q = 0; j < yMax; j++, q++)\<close>.
  The local \<open>yMax\<close> is written \<open>yMax'\<close> (and \<open>xMax\<close> below \<open>xMax'\<close>), the plain names
  being fields of \<open>FT_BBox\<close>.
\<close>

function DrawGlyph_rows ::
  "byte list \<Rightarrow> FT_Int \<Rightarrow> FT_Int \<Rightarrow> FT_Bitmap \<Rightarrow> FT_Int \<Rightarrow> FT_Int \<Rightarrow> FT_Int \<Rightarrow> FT_Int \<Rightarrow> FT_Int
     \<Rightarrow> fault + byte list"
where
  "DrawGlyph_rows img width height glyphBitmap yMax' i p j q =
     (if j <s yMax' then
        (if i <s 0 \<or> j <s 0 \<or> width \<le>s i \<or> height \<le>s j
         then DrawGlyph_rows img width height glyphBitmap yMax' i p (j + 1) (q + 1)
         else (case or_assign img width glyphBitmap i j p q of
                 Inl e \<Rightarrow> Inl e
               | Inr img' \<Rightarrow>
                   DrawGlyph_rows img' width height glyphBitmap yMax' i p (j + 1) (q + 1)))
      else Inr img)"
  by pat_completeness auto
termination
  by (relation "measure (\<lambda>(img, width, height, glyphBitmap, yMax', i, p, j, q).
                   nat (sint yMax' - sint j))")
     (simp_all add: loop_measure_decreases)

declare DrawGlyph_rows.simps [simp del]

text \<open>The outer loop, lines 26 to 35: \<open>for (FT_Int i = x, p = 0; i < xMax; i++, p++)\<close>.\<close>

function DrawGlyph_cols ::
  "byte list \<Rightarrow> FT_Int \<Rightarrow> FT_Int \<Rightarrow> FT_Bitmap \<Rightarrow> FT_Int \<Rightarrow> FT_Int \<Rightarrow> FT_Int \<Rightarrow> FT_Int \<Rightarrow> FT_Int
     \<Rightarrow> fault + byte list"
where
  "DrawGlyph_cols img width height glyphBitmap y xMax' yMax' i p =
     (if i <s xMax' then
        (case DrawGlyph_rows img width height glyphBitmap yMax' i p y 0 of
           Inl e \<Rightarrow> Inl e
         | Inr img' \<Rightarrow>
             DrawGlyph_cols img' width height glyphBitmap y xMax' yMax' (i + 1) (p + 1))
      else Inr img)"
  by pat_completeness auto
termination
  by (relation "measure (\<lambda>(img, width, height, glyphBitmap, y, xMax', yMax', i, p).
                   nat (sint xMax' - sint i))")
     (simp_all add: loop_measure_decreases)

declare DrawGlyph_cols.simps [simp del]

text \<open>
  Lines 23 and 24 add an \<open>unsigned int\<close> to an \<open>FT_Int\<close> and store the sum in an
  \<open>FT_Int\<close>: the addition is modulo \<open>2^32\<close>.
\<close>

definition DrawGlyph ::
  "byte list \<Rightarrow> FT_Int \<Rightarrow> FT_Int \<Rightarrow> FT_Bitmap \<Rightarrow> FT_Int \<Rightarrow> FT_Int \<Rightarrow> fault + byte list"
where
  "DrawGlyph img width height glyphBitmap x y =
     (let xMax' = x + bm_width glyphBitmap;
          yMax' = y + bm_rows glyphBitmap
      in DrawGlyph_cols img width height glyphBitmap y xMax' yMax' x 0)"

text \<open>
  The executions of line 33 that one call of \<open>DrawGlyph\<close> performs, in order, each
  with the values of \<open>i\<close>, \<open>j\<close>, \<open>p\<close> and \<open>q\<close> at that moment. The loops and
  the test of line 30 are those of \<open>DrawGlyph_rows\<close> and \<open>DrawGlyph_cols\<close>; they
  never read the image, so the list depends on the arguments only.
\<close>

type_synonym pixel_write = "FT_Int \<times> FT_Int \<times> FT_Int \<times> FT_Int"

function DrawGlyph_rows_writes ::
  "FT_Int \<Rightarrow> FT_Int \<Rightarrow> FT_Int \<Rightarrow> FT_Int \<Rightarrow> FT_Int \<Rightarrow> FT_Int \<Rightarrow> FT_Int \<Rightarrow> pixel_write list"
where
  "DrawGlyph_rows_writes width height yMax' i p j q =
     (if j <s yMax' then
        (if i <s 0 \<or> j <s 0 \<or> width \<le>s i \<or> height \<le>s j
         then DrawGlyph_rows_writes width height yMax' i p (j + 1) (q + 1)
         else (i, j, p, q) # DrawGlyph_rows_writes width height yMax' i p (j + 1) (q + 1))
      else [])"
  by pat_completeness auto
termination
  by (relation "measure (\<lambda>(width, height, yMax', i, p, j, q). nat (sint yMax' - sint j))")
     (simp_all add: loop_measure_decreases)

declare DrawGlyph_rows_writes.simps [simp del]

function DrawGlyph_cols_writes ::
  "FT_Int \<Rightarrow> FT_Int \<Rightarrow> FT_Int \<Rightarrow> FT_Int \<Rightarrow> FT_Int \<Rightarrow> FT_Int \<Rightarrow> FT_Int \<Rightarrow> pixel_write list"
where
  "DrawGlyph_cols_writes width height y xMax' yMax' i p =
     (if i <s xMax' then
        DrawGlyph_rows_writes width height yMax' i p y 0
          @ DrawGlyph_cols_writes width height y xMax' yMax' (i + 1) (p + 1)
      else [])"
  by pat_completeness auto
termination
  by (relation "measure (\<lambda>(width, height, y, xMax', yMax', i, p). nat (sint xMax' - sint i))")
     (simp_all add: loop_measure_decreases)

declare DrawGlyph_cols_writes.simps [simp del]

definition DrawGlyph_writes ::
  "FT_Int \<Rightarrow> FT_Int \<Rightarrow> FT_Bitmap \<Rightarrow> FT_Int \<Rightarrow> FT_Int \<Rightarrow> pixel_write list"
where
  "DrawGlyph_writes width height glyphBitmap x y =
     (let xMax' = x + bm_width glyphBitmap;
          yMax' = y + bm_rows glyphBitmap
      in DrawGlyph_cols_writes width height y xMax' yMax' x 0)"

text \<open>Line 33 executed for each entry of a list, stopping at the first fault.\<close>

fun or_assign_all ::
  "byte list \<Rightarrow> FT_Int \<Rightarrow> FT_Bitmap \<Rightarrow> pixel_write list \<Rightarrow> fault + byte list"
where
  "or_assign_all img width glyphBitmap [] = Inr img"
| "or_assign_all img width glyphBitmap ((i, j, p, q) # ws) =
     (case or_assign img width glyphBitmap i j p q of
        Inl e \<Rightarrow> Inl e
      | Inr img' \<Rightarrow> or_assign_all img' width glyphBitmap ws)"

section \<open>The rasterizer as a collaborator\<close>

text \<open>
  \<open>FT_Vector\<close> has the fields \<open>x\<close> and \<open>y\<close> (here \<open>vec_x\<close>, \<open>vec_y\<close>); \<open>FT_BBox\<close>
  has \<open>xMin\<close>, \<open>yMin\<close>, \<open>xMax\<close>, \<open>yMax\<close>. All are \<open>FT_Pos\<close>, in 26.6 fixed point.
\<close>

record FT_Vector =
  vec_x :: FT_Pos
  vec_y :: FT_Pos

record FT_BBox =
  xMin :: FT_Pos
  yMin :: FT_Pos
  xMax :: FT_Pos
  yMax :: FT_Pos

text \<open>
  What \<open>main\<close> reads after \<open>FT_Load_Glyph(face, codepoint, FT_LOAD_RENDER)\<close>: the
  fields of \<open>face->glyph\<close> it uses, and in \<open>cbox\<close> the box that \<open>FT_Get_Glyph\<close>
  followed by \<open>FT_Glyph_Get_CBox(glyph, ft_glyph_bbox_subpixels, &glyphBbox)\<close>
  reports for that slot.
\<close>

record FT_GlyphSlot =
  advance :: FT_Vector
  metrics_height :: FT_Pos
  metrics_horiBearingY :: FT_Pos
  bitmap :: FT_Bitmap
  bitmap_left :: FT_Int
  bitmap_top :: FT_Int
  cbox :: FT_BBox

text \<open>
  FreeType is outside the repository. \<open>FT_Set_Transform(face, NULL, &translation)\<close>
  followed by \<open>FT_Load_Glyph\<close> is a parameter of the model: a function from the
  translation and the glyph index to the slot. Its return code is ignored by
  \<open>main\<close>.
\<close>

type_synonym rasterizer = "FT_Vector \<Rightarrow> hb_codepoint_t \<Rightarrow> FT_GlyphSlot"

definition add_vector :: "FT_Vector \<Rightarrow> FT_Vector \<Rightarrow> FT_Vector" where
  "add_vector translation a =
     \<lparr>vec_x = vec_x translation + vec_x a, vec_y = vec_y translation + vec_y a\<rparr>"

section \<open>The metrics pass\<close>

record metrics_state =
  ms_translation :: FT_Vector
  ms_bbox :: FT_BBox
  ms_aboveOriginShift :: FT_Int

text \<open>
  Lines 165 to 174. \<open>INT_MAX\<close> and \<open>INT_MIN\<close> are \<open>int\<close> constants stored into
  \<open>FT_Pos\<close> fields: the conversion extends the sign.
\<close>

definition metrics_init :: metrics_state where
  "metrics_init =
     \<lparr>ms_translation = \<lparr>vec_x = 0, vec_y = 0\<rparr>,
      ms_bbox = \<lparr>xMin = scast INT_MAX, yMin = scast INT_MAX,
                 xMax = scast INT_MIN, yMax = scast INT_MIN\<rparr>,
      ms_aboveOriginShift = INT_MIN\<rparr>"

text \<open>
  The body of the first loop, lines 178 to 196. \<open>int temp = ...\<close> narrows an
  \<open>FT_Pos\<close> to 32 bits.
\<close>

definition metrics_step :: "rasterizer \<Rightarrow> hb_codepoint_t \<Rightarrow> metrics_state \<Rightarrow> metrics_state" where
  "metrics_step load codepoint s =
     (let glyphSlot = load (ms_translation s) codepoint;
          glyphBbox = cbox glyphSlot;
          translation = add_vector (ms_translation s) (advance glyphSlot);
          bbox = ms_bbox s;
          bbox = (if xMin glyphBbox <s xMin bbox then bbox\<lparr>xMin := xMin glyphBbox\<rparr> else bbox);
          bbox = (if yMin glyphBbox <s yMin bbox then bbox\<lparr>yMin := yMin glyphBbox\<rparr> else bbox);
          bbox = (if xMax bbox <s xMax glyphBbox then bbox\<lparr>xMax := xMax glyphBbox\<rparr> else bbox);
          bbox = (if yMax bbox <s yMax glyphBbox then bbox\<lparr>yMax := yMax glyphBbox\<rparr> else bbox);
          temp = (ucast (metrics_height glyphSlot - metrics_horiBearingY glyphSlot) :: FT_Int);
          aboveOriginShift =
            (if ms_aboveOriginShift s <s temp then temp else ms_aboveOriginShift s)
      in \<lparr>ms_translation = translation, ms_bbox = bbox,
          ms_aboveOriginShift = aboveOriginShift\<rparr>)"

fun metrics_loop :: "rasterizer \<Rightarrow> hb_codepoint_t list \<Rightarrow> metrics_state \<Rightarrow> metrics_state" where
  "metrics_loop load [] s = s"
| "metrics_loop load (codepoint # rest) s = metrics_loop load rest (metrics_step load codepoint s)"

definition metrics_pass :: "rasterizer \<Rightarrow> hb_codepoint_t list \<Rightarrow> metrics_state" where
  "metrics_pass load glyphCodepoints = metrics_loop load glyphCodepoints metrics_init"

text \<open>
  The translation that \<open>FT_Set_Transform\<close> receives at each iteration of the first
  loop: the pen positions of the metrics pass.
\<close>

fun metrics_pens :: "rasterizer \<Rightarrow> hb_codepoint_t list \<Rightarrow> metrics_state \<Rightarrow> FT_Vector list" where
  "metrics_pens load [] s = []"
| "metrics_pens load (codepoint # rest) s =
     ms_translation s # metrics_pens load rest (metrics_step load codepoint s)"

section \<open>Canvas sizing and allocation\<close>

text \<open>Lines 200 and 201: a division in \<open>FT_Pos\<close>, narrowed to \<open>FT_Int\<close>.\<close>

definition canvas_width :: "FT_BBox \<Rightarrow> FT_Int" where
  "canvas_width bbox = ucast (sdiv_word (xMax bbox - xMin bbox) 64)"

definition canvas_height :: "FT_BBox \<Rightarrow> FT_Int" where
  "canvas_height bbox = ucast (sdiv_word (yMax bbox - yMin bbox) 64)"

text \<open>
  Line 203, \<open>new unsigned char[width*height]()\<close>. The bound is an \<open>int\<close> product;
  where it overflows the behaviour is undefined, and the model takes the wrapped
  value. A bound that is not negative gives a zero-initialised array of that many
  bytes. A negative bound, converted to \<open>size_t\<close>, is a size that no allocation
  satisfies: the new-expression ends in an exception, \<open>std::bad_alloc\<close> from
  \<open>operator new[]\<close> or, where the compiler tests the bound, the
  \<open>std::bad_array_new_length\<close> derived from it. Running out of memory for a bound
  that is not negative is not modelled.
\<close>

datatype bad_alloc = Bad_alloc

definition new_image :: "FT_Int \<Rightarrow> FT_Int \<Rightarrow> bad_alloc + byte list" where
  "new_image width height =
     (let n = sint (width * height)
      in if n < 0 then Inl Bad_alloc else Inr (replicate (nat n) 0))"

section \<open>The render pass\<close>

text \<open>The second loop, lines 208 to 218, on the image and the translation.\<close>

fun render_loop ::
  "rasterizer \<Rightarrow> FT_Int \<Rightarrow> FT_Int \<Rightarrow> hb_codepoint_t list \<Rightarrow> byte list \<Rightarrow> FT_Vector
     \<Rightarrow> fault + (byte list \<times> FT_Vector)"
where
  "render_loop load width height [] img translation = Inr (img, translation)"
| "render_loop load width height (codepoint # rest) img translation =
     (let glyphSlot = load translation codepoint
      in case DrawGlyph img width height (bitmap glyphSlot)
                (bitmap_left glyphSlot) (height - bitmap_top glyphSlot) of
           Inl e \<Rightarrow> Inl e
         | Inr img' \<Rightarrow>
             render_loop load width height rest img'
               (add_vector translation (advance glyphSlot)))"

text \<open>
  For each iteration of the second loop: the translation that \<open>FT_Set_Transform\<close>
  receives, and the bitmap and destination that \<open>DrawGlyph\<close> receives.
\<close>

fun render_calls ::
  "rasterizer \<Rightarrow> FT_Int \<Rightarrow> hb_codepoint_t list \<Rightarrow> FT_Vector
     \<Rightarrow> (FT_Vector \<times> FT_Bitmap \<times> FT_Int \<times> FT_Int) list"
where
  "render_calls load height [] translation = []"
| "render_calls load height (codepoint # rest) translation =
     (let glyphSlot = load translation codepoint
      in (translation, bitmap glyphSlot, bitmap_left glyphSlot, height - bitmap_top glyphSlot)
         # render_calls load height rest (add_vector translation (advance glyphSlot)))"

text \<open>
  Lines 165 to 221 for one shaped glyph sequence. \<open>PrintPGM\<close> only formats its
  arguments; the outcome records them.
\<close>

datatype outcome =
    Usage_error
  | FreeType_init_error
  | Font_load_error
  | Uncaught bad_alloc
  | Undefined_behaviour fault
  | Printed FT_Int FT_Int "byte list"

definition FreeType_rendering :: "rasterizer \<Rightarrow> hb_codepoint_t list \<Rightarrow> outcome" where
  "FreeType_rendering load glyphCodepoints =
     (let s = metrics_pass load glyphCodepoints;
          width = canvas_width (ms_bbox s);
          height = canvas_height (ms_bbox s)
      in case new_image width height of
           Inl e \<Rightarrow> Uncaught e
         | Inr img \<Rightarrow>
             (case render_loop load width height glyphCodepoints img
                     \<lparr>vec_x = 0, vec_y = scast (ms_aboveOriginShift s)\<rparr> of
                Inl e \<Rightarrow> Undefined_behaviour e
              | Inr (img', translation) \<Rightarrow> Printed width height img'))"

section \<open>ICU reordering, HarfBuzz shaping and \<open>main\<close>\<close>

text \<open>
  ICU and HarfBuzz are outside the repository; their entry points are parameters
  of the model. A \<open>UErrorCode\<close> is an integer: \<open>U_ZERO_ERROR\<close> is 0 and
  \<open>U_FAILURE\<close> holds of the positive codes. Lengths are \<open>size_t\<close> values, modelled
  as natural numbers.
\<close>

type_synonym UErrorCode = int

definition U_ZERO_ERROR :: UErrorCode where
  "U_ZERO_ERROR = 0"

definition U_BUFFER_OVERFLOW_ERROR :: UErrorCode where
  "U_BUFFER_OVERFLOW_ERROR = 15"

definition U_FAILURE :: "UErrorCode \<Rightarrow> bool" where
  "U_FAILURE code = (U_ZERO_ERROR < code)"

text \<open>
  Each ICU entry point takes the incoming error code and returns the outgoing one;
  those with a destination buffer take its capacity and return the elements they
  store and the length they report.
  \<^item> \<open>ucnv_toUChars\<close>: capacity, source bytes, error.
  \<^item> \<open>ubidi_openSized\<close>: maximum length, error.
  \<^item> \<open>ubidi_setPara\<close>: text, length, error.
  \<^item> \<open>ubidi_writeReordered\<close>: the text and length given to \<open>ubidi_setPara\<close>,
    destination size, error.
  \<^item> \<open>ucnv_fromUChars\<close>: capacity, source units, source length, error.
  \<open>hb_shape\<close> stands for lines 134 to 154: from the bytes of \<open>utf8str\<close> to the
  glyph indices. \<open>str\<close> is the text of lines 90 to 98.
\<close>

record environment =
  argc :: int
  FT_Init_FreeType :: bool
  FT_New_Face :: bool
  str :: "byte list"
  ucnv_open :: "UErrorCode \<Rightarrow> UErrorCode"
  ucnv_toUChars :: "nat \<Rightarrow> byte list \<Rightarrow> UErrorCode \<Rightarrow> UChar list \<times> nat \<times> UErrorCode"
  ubidi_openSized :: "nat \<Rightarrow> UErrorCode \<Rightarrow> UErrorCode"
  ubidi_setPara :: "UChar list \<Rightarrow> nat \<Rightarrow> UErrorCode \<Rightarrow> UErrorCode"
  ubidi_writeReordered ::
    "UChar list \<Rightarrow> nat \<Rightarrow> nat \<Rightarrow> UErrorCode \<Rightarrow> UChar list \<times> nat \<times> UErrorCode"
  ucnv_fromUChars ::
    "nat \<Rightarrow> UChar list \<Rightarrow> nat \<Rightarrow> UErrorCode \<Rightarrow> byte list \<times> nat \<times> UErrorCode"
  hb_shape :: "byte list \<Rightarrow> hb_codepoint_t list"
  FT_Load_Glyph :: rasterizer

text \<open>
  \<open>resize v n\<close> is \<open>std::vector::resize\<close>: it cuts \<open>v\<close> to \<open>n\<close> elements or pads
  it with zeros. It also gives a zero-initialised buffer of \<open>n\<close> elements after a
  callee has stored \<open>v\<close> at its start.
\<close>

definition resize :: "'a::zero list \<Rightarrow> nat \<Rightarrow> 'a list" where
  "resize v n = take n v @ replicate (n - length v) 0"

text \<open>
  Lines 104 to 128. The result is \<open>utf8str\<close> together with the last value of
  \<open>error\<close>, which the program never reads.
\<close>

definition ICU_reordering :: "environment \<Rightarrow> byte list \<times> UErrorCode" where
  "ICU_reordering env =
     (let error = ucnv_open env U_ZERO_ERROR;
          (stored, len, error) = ucnv_toUChars env (length (str env) + 1) (str env) error;
          utf16str = resize stored (length (str env) + 1);
          error = ubidi_openSized env (len + 1) error;
          error = ubidi_setPara env utf16str len error;
          (stored, len', error) = ubidi_writeReordered env utf16str len (len + 1) error;
          utf16strReordered = resize stored (len + 1);
          (stored, len'', error) = ucnv_fromUChars env (len' * 2) utf16strReordered len' error;
          utf8str = resize (resize stored (len' * 2)) len''
      in (utf8str, error))"

definition main :: "environment \<Rightarrow> outcome" where
  "main env =
     (if argc env \<noteq> 2 then Usage_error
      else if \<not> FT_Init_FreeType env then FreeType_init_error
      else if \<not> FT_New_Face env then Font_load_error
      else (let (utf8str, error) = ICU_reordering env;
                glyphCodepoints = hb_shape env utf8str
            in FreeType_rendering (FT_Load_Glyph env) glyphCodepoints))"

section \<open>Canvases, bitmaps and destination rectangles\<close>

text \<open>
  A canvas of dimensions \<open>width\<close> by \<open>height\<close> is what line 203 allocates: an
  array of \<open>width*height\<close> bytes, the product being an \<open>int\<close>. A glyph bitmap holds
  at least \<open>rows * width\<close> bytes, which is what lines 26 to 35 read. \<open>pixel\<close> is
  \<open>image[j * width + i]\<close>, and \<open>covered\<close> says that column \<open>i\<close>, row \<open>j\<close> lies in
  the destination rectangle of a bitmap drawn at \<open>(x, y)\<close>.
\<close>

definition canvas :: "byte list \<Rightarrow> FT_Int \<Rightarrow> FT_Int \<Rightarrow> bool" where
  "canvas img width height =
     (0 \<le> sint width \<and> 0 \<le> sint height \<and> sint width * sint height \<le> 2147483647
      \<and> int (length img) = sint width * sint height)"

definition glyph_bitmap :: "FT_Bitmap \<Rightarrow> bool" where
  "glyph_bitmap glyphBitmap =
     (unat (bm_rows glyphBitmap) * unat (bm_width glyphBitmap) \<le> length (bm_buffer glyphBitmap))"

definition pixel :: "byte list \<Rightarrow> FT_Int \<Rightarrow> int \<Rightarrow> int \<Rightarrow> byte" where
  "pixel img width i j = img ! nat (j * sint width + i)"

definition covered :: "FT_Bitmap \<Rightarrow> FT_Int \<Rightarrow> FT_Int \<Rightarrow> int \<Rightarrow> int \<Rightarrow> bool" where
  "covered glyphBitmap x y i j =
     (sint x \<le> i \<and> i < sint x + uint (bm_width glyphBitmap)
      \<and> sint y \<le> j \<and> j < sint y + uint (bm_rows glyphBitmap))"

text \<open>The calls of \<open>DrawGlyph\<close> that a list of render-pass iterations makes.\<close>

fun DrawGlyph_calls ::
  "byte list \<Rightarrow> FT_Int \<Rightarrow> FT_Int \<Rightarrow> (FT_Vector \<times> FT_Bitmap \<times> FT_Int \<times> FT_Int) list
     \<Rightarrow> fault + byte list"
where
  "DrawGlyph_calls img width height [] = Inr img"
| "DrawGlyph_calls img width height ((translation, glyphBitmap, x, y) # calls) =
     (case DrawGlyph img width height glyphBitmap x y of
        Inl e \<Rightarrow> Inl e
      | Inr img' \<Rightarrow> DrawGlyph_calls img' width height calls)"

text \<open>A box with \<open>xMin \<le> xMax\<close> and \<open>yMin \<le> yMax\<close>, the coordinates being signed.\<close>

definition ordered_box :: "FT_BBox \<Rightarrow> bool" where
  "ordered_box b = (sint (xMin b) \<le> sint (xMax b) \<and> sint (yMin b) \<le> sint (yMax b))"

section \<open>A small font and a small converter\<close>

text \<open>
  Concrete collaborators, for closed examples only. Every glyph of \<open>toy_font\<close> is
  one pixel wide and two pixels high, one above the baseline and one below, and
  advances the pen by two pixels; the translation moves its box and its bearings.
\<close>

definition toy_font :: rasterizer where
  "toy_font translation codepoint =
     \<lparr>advance = \<lparr>vec_x = 128, vec_y = 0\<rparr>,
      metrics_height = 128,
      metrics_horiBearingY = 64,
      bitmap = \<lparr>bm_rows = 2, bm_width = 1, bm_buffer = [255, 128]\<rparr>,
      bitmap_left = ucast (sdiv_word (vec_x translation) 64),
      bitmap_top = ucast (sdiv_word (vec_y translation) 64) + 1,
      cbox = \<lparr>xMin = vec_x translation, yMin = vec_y translation - 64,
               xMax = vec_x translation + 64, yMax = vec_y translation + 64\<rparr>\<rparr>"

text \<open>
  UTF-8 and UTF-16 for the Basic Multilingual Plane without surrogates, as the
  Unicode standard defines them: one code unit is one, two or three bytes.
\<close>

definition utf8_of_UChar :: "UChar \<Rightarrow> byte list" where
  "utf8_of_UChar u =
     (if u < 0x80 then [ucast u]
      else if u < 0x800 then [0xC0 OR ucast (drop_bit 6 u), 0x80 OR (ucast u AND 0x3F)]
      else [0xE0 OR ucast (drop_bit 12 u), 0x80 OR (ucast (drop_bit 6 u) AND 0x3F),
            0x80 OR (ucast u AND 0x3F)])"

definition utf8_of_UChars :: "UChar list \<Rightarrow> byte list" where
  "utf8_of_UChars us = concat (map utf8_of_UChar us)"

fun UChars_of_utf8 :: "byte list \<Rightarrow> UChar list" where
  "UChars_of_utf8 [] = []"
| "UChars_of_utf8 (b # bs) =
     (if b < 0x80 then ucast b # UChars_of_utf8 bs
      else if b < 0xE0 then
        (case bs of
           b1 # rest \<Rightarrow>
             (push_bit 6 (ucast (b AND 0x1F)) OR ucast (b1 AND 0x3F)) # UChars_of_utf8 rest
         | [] \<Rightarrow> [0xFFFD])
      else
        (case bs of
           b1 # b2 # rest \<Rightarrow>
             (push_bit 12 (ucast (b AND 0x0F)) OR push_bit 6 (ucast (b1 AND 0x3F))
                OR ucast (b2 AND 0x3F)) # UChars_of_utf8 rest
         | _ \<Rightarrow> [0xFFFD]))"

text \<open>
  An environment that follows ICU's documented conventions: an entry point does
  nothing once \<open>error\<close> is a failure; a conversion stores what fits, reports the
  full length, and sets \<open>U_BUFFER_OVERFLOW_ERROR\<close> when the output did not fit. The
  text has no right-to-left character, so reordering leaves it as it is. The
  shaper yields one glyph per byte.
\<close>

definition toy_environment :: "byte list \<Rightarrow> environment" where
  "toy_environment text =
     \<lparr>argc = 2, FT_Init_FreeType = True, FT_New_Face = True, str = text,
      ucnv_open = (\<lambda>error. error),
      ucnv_toUChars = (\<lambda>capacity src error.
        if U_FAILURE error then ([], 0, error)
        else (take capacity (UChars_of_utf8 src), length (UChars_of_utf8 src),
              if capacity < length (UChars_of_utf8 src) then U_BUFFER_OVERFLOW_ERROR else error)),
      ubidi_openSized = (\<lambda>maxLength error. error),
      ubidi_setPara = (\<lambda>text len error. error),
      ubidi_writeReordered = (\<lambda>text len destSize error.
        if U_FAILURE error then ([], 0, error)
        else (take destSize (take len text), len,
              if destSize < len then U_BUFFER_OVERFLOW_ERROR else error)),
      ucnv_fromUChars = (\<lambda>capacity src srcLength error.
        if U_FAILURE error then ([], 0, error)
        else (take capacity (utf8_of_UChars (take srcLength src)),
              length (utf8_of_UChars (take srcLength src)),
              if capacity < length (utf8_of_UChars (take srcLength src))
              then U_BUFFER_OVERFLOW_ERROR else error)),
      hb_shape = (\<lambda>utf8str. map ucast utf8str),
      FT_Load_Glyph = toy_font\<rparr>"

text \<open>U+2665, a black heart, in UTF-8.\<close>

definition heart :: "byte list" where
  "heart = [0xE2, 0x99, 0xA5]"

section \<open>Word arithmetic\<close>

lemma sint_word_of_int_self:
  fixes k :: int
  assumes "- (2 ^ (LENGTH('a::len) - 1)) \<le> k" and "k < 2 ^ (LENGTH('a) - 1)"
  shows "sint (word_of_int k :: 'a word) = k"
  using assms by (simp only: sint_sbintrunc' signed_take_bit_int_eq_self)

lemma sint_diff_in_range:
  fixes a b :: "'a::len word"
  assumes "- (2 ^ (LENGTH('a) - 1)) \<le> sint a - sint b"
    and "sint a - sint b < 2 ^ (LENGTH('a) - 1)"
  shows "sint (a - b) = sint a - sint b"
  using assms by (simp only: sint_word_diff signed_take_bit_int_eq_self)

lemma sdiv_nonneg: "0 \<le> (k::int) \<Longrightarrow> k sdiv 64 = k div 64"
  by (simp add: signed_divide_int_def sgn_if)

section \<open>Canvas size\<close>

lemma extent_pixels:
  fixes hi lo :: FT_Pos
  assumes "sint lo \<le> sint hi" and "sint hi - sint lo < 2 ^ 37"
  shows "sint (ucast (sdiv_word (hi - lo) 64) :: FT_Int) = (sint hi - sint lo) div 64"
proof -
  let ?d = "sint hi - sint lo"
  have d: "sint (hi - lo) = ?d"
    using assms by (intro sint_diff_in_range) simp_all
  have q: "0 \<le> ?d div 64" "?d div 64 < 2 ^ 31"
    using assms by simp_all
  have "sdiv_word (hi - lo) 64 = (word_of_int (?d div 64) :: FT_Pos)"
    using assms by (simp add: sdiv_word_def d sdiv_nonneg)
  then have "(ucast (sdiv_word (hi - lo) 64) :: FT_Int) = word_of_int (?d div 64)"
    using q by (simp add: ucast_eq unsigned_of_int take_bit_int_eq_self)
  then show ?thesis
    using q by (simp add: sint_word_of_int_self)
qed

text \<open>
  C1, as amended. For a bounding box with \<open>xMin \<le> xMax\<close> and \<open>yMin \<le> yMax\<close> whose
  extents are below \<open>2^37\<close> subpixel units, so that the pixel counts fit \<open>FT_Int\<close>,
  the canvas width is \<open>(xMax - xMin) / 64\<close> and the height \<open>(yMax - yMin) / 64\<close>,
  the divisions truncating toward zero (\<open>sdiv\<close>), and both equal the floor of the
  extent divided by 64 (\<open>div\<close>).
\<close>

theorem canvas_size_floor:
  assumes "sint (xMin bbox) \<le> sint (xMax bbox)" and "sint (yMin bbox) \<le> sint (yMax bbox)"
    and "sint (xMax bbox) - sint (xMin bbox) < 2 ^ 37"
    and "sint (yMax bbox) - sint (yMin bbox) < 2 ^ 37"
  shows "sint (canvas_width bbox) = (sint (xMax bbox) - sint (xMin bbox)) sdiv 64
       \<and> sint (canvas_height bbox) = (sint (yMax bbox) - sint (yMin bbox)) sdiv 64
       \<and> sint (canvas_width bbox) = (sint (xMax bbox) - sint (xMin bbox)) div 64
       \<and> sint (canvas_height bbox) = (sint (yMax bbox) - sint (yMin bbox)) div 64"
  using assms by (simp add: canvas_width_def canvas_height_def extent_pixels sdiv_nonneg)

theorem canvas_size_floor_witness:
  "sint (canvas_width \<lparr>xMin = - 64, yMin = 0, xMax = 100, yMax = 640\<rparr>) = 2
 \<and> sint (canvas_height \<lparr>xMin = - 64, yMin = 0, xMax = 100, yMax = 640\<rparr>) = 10"
  using canvas_size_floor [of "\<lparr>xMin = - 64, yMin = 0, xMax = 100, yMax = 640\<rparr>"]
  by simp

text \<open>
  C1 as stated fails where the quotient does not fit \<open>FT_Int\<close>. A font whose
  glyph box runs from 0 to \<open>2^37\<close> gives the metrics pass a box \<open>2^31\<close> pixels
  wide, and the width stored is \<open>- 2^31\<close>.
\<close>

theorem canvas_width_narrowing_counterexample:
  "ms_bbox (metrics_pass
      (\<lambda>translation codepoint. (toy_font translation codepoint)
          \<lparr>cbox := \<lparr>xMin = 0, yMin = 0, xMax = 137438953472, yMax = 64\<rparr>\<rparr>) [1])
     = \<lparr>xMin = 0, yMin = 0, xMax = 137438953472, yMax = 64\<rparr>
 \<and> sint (0 :: FT_Pos) \<le> sint (137438953472 :: FT_Pos)
 \<and> sint (canvas_width \<lparr>xMin = 0, yMin = 0, xMax = 137438953472, yMax = 64\<rparr>) = - 2147483648
 \<and> (sint (137438953472 :: FT_Pos) - sint (0 :: FT_Pos)) div 64 = 2147483648"
  by code_simp

section \<open>\<open>DrawGlyph\<close> as a list of writes\<close>

lemma DrawGlyph_rows_eq:
  "DrawGlyph_rows img width height glyphBitmap yMax' i p j q =
     or_assign_all img width glyphBitmap (DrawGlyph_rows_writes width height yMax' i p j q)"
proof (induction width height yMax' i p j q arbitrary: img rule: DrawGlyph_rows_writes.induct)
  case (1 width height yMax' i p j q)
  show ?case
    by (subst DrawGlyph_rows.simps, subst DrawGlyph_rows_writes.simps)
       (simp add: 1 split: sum.splits)
qed

lemma or_assign_all_append:
  "or_assign_all img width glyphBitmap (ws @ ws') =
     (case or_assign_all img width glyphBitmap ws of
        Inl e \<Rightarrow> Inl e
      | Inr img' \<Rightarrow> or_assign_all img' width glyphBitmap ws')"
  by (induction ws arbitrary: img) (auto split: sum.splits)

lemma DrawGlyph_cols_eq:
  "DrawGlyph_cols img width height glyphBitmap y xMax' yMax' i p =
     or_assign_all img width glyphBitmap (DrawGlyph_cols_writes width height y xMax' yMax' i p)"
proof (induction width height y xMax' yMax' i p arbitrary: img rule: DrawGlyph_cols_writes.induct)
  case (1 width height y xMax' yMax' i p)
  show ?case
    by (subst DrawGlyph_cols.simps, subst DrawGlyph_cols_writes.simps)
       (simp add: 1 DrawGlyph_rows_eq or_assign_all_append split: sum.splits)
qed

lemma DrawGlyph_eq:
  "DrawGlyph img width height glyphBitmap x y =
     or_assign_all img width glyphBitmap (DrawGlyph_writes width height glyphBitmap x y)"
  by (simp add: DrawGlyph_def DrawGlyph_writes_def DrawGlyph_cols_eq)

section \<open>Properties of a list of writes\<close>

lemma or_assign_Inr:
  assumes "or_assign img width glyphBitmap i j p q = Inr img'"
  shows "src_index glyphBitmap p q < length (bm_buffer glyphBitmap)"
    and "0 \<le> dst_index width i j" and "dst_index width i j < int (length img)"
    and "img' = img[nat (dst_index width i j) :=
                  img ! nat (dst_index width i j) OR bm_buffer glyphBitmap ! src_index glyphBitmap p q]"
  using assms by (auto simp: or_assign_def Let_def split: if_splits)

lemma or_assign_valid:
  assumes "src_index glyphBitmap p q < length (bm_buffer glyphBitmap)"
    and "0 \<le> dst_index width i j" and "dst_index width i j < int (length img)"
  shows "or_assign img width glyphBitmap i j p q =
           Inr (img[nat (dst_index width i j) :=
                  img ! nat (dst_index width i j) OR bm_buffer glyphBitmap ! src_index glyphBitmap p q])"
  using assms by (simp add: or_assign_def Let_def)

lemma or_assign_length:
  "or_assign img width glyphBitmap i j p q = Inr img' \<Longrightarrow> length img' = length img"
  by (auto dest: or_assign_Inr(4))

lemma or_assign_nth:
  assumes "or_assign img width glyphBitmap i j p q = Inr img'" and "k < length img"
  shows "img' ! k =
           (if int k = dst_index width i j
            then img ! k OR bm_buffer glyphBitmap ! src_index glyphBitmap p q else img ! k)"
proof -
  note r = or_assign_Inr [OF assms(1)]
  show ?thesis
  proof (cases "int k = dst_index width i j")
    case True
    then have "nat (dst_index width i j) = k" by simp
    with r(4) assms(2) True show ?thesis by simp
  next
    case False
    with r(2) have "nat (dst_index width i j) \<noteq> k" by auto
    with r(4) False show ?thesis by simp
  qed
qed

lemma or_assign_all_length:
  "or_assign_all img width glyphBitmap ws = Inr img' \<Longrightarrow> length img' = length img"
proof (induction ws arbitrary: img)
  case Nil
  then show ?case by simp
next
  case (Cons w ws)
  obtain i j p q where w: "w = (i, j, p, q)" by (cases w) auto
  from Cons.prems obtain img1 where
    s: "or_assign img width glyphBitmap i j p q = Inr img1"
    and r: "or_assign_all img1 width glyphBitmap ws = Inr img'"
    by (auto simp: w split: sum.splits)
  from Cons.IH [OF r] or_assign_length [OF s] show ?case by simp
qed

lemma or_assign_all_absorbs_old:
  assumes "or_assign_all img width glyphBitmap ws = Inr img'" and "k < length img"
  shows "img ! k OR img' ! k = img' ! k"
  using assms
proof (induction ws arbitrary: img)
  case Nil
  then show ?case by simp
next
  case (Cons w ws)
  obtain i j p q where w: "w = (i, j, p, q)" by (cases w) auto
  from Cons.prems obtain img1 where
    s: "or_assign img width glyphBitmap i j p q = Inr img1"
    and r: "or_assign_all img1 width glyphBitmap ws = Inr img'"
    by (auto simp: w split: sum.splits)
  have k1: "k < length img1"
    using or_assign_length [OF s] Cons.prems(2) by simp
  have a: "img1 ! k OR img' ! k = img' ! k"
    by (rule Cons.IH [OF r k1])
  have b: "img ! k OR img1 ! k = img1 ! k"
    using or_assign_nth [OF s Cons.prems(2)] by (simp add: or.assoc [symmetric])
  have "img ! k OR img' ! k = img ! k OR (img1 ! k OR img' ! k)"
    by (simp add: a)
  also have "\<dots> = (img ! k OR img1 ! k) OR img' ! k"
    by (simp add: or.assoc)
  also have "\<dots> = img' ! k"
    by (simp add: a b)
  finally show ?case .
qed

lemma or_assign_all_mono:
  assumes "or_assign_all img width glyphBitmap ws = Inr img'" and "k < length img"
  shows "img ! k \<le> img' ! k"
proof -
  have "img ! k \<le> img ! k OR img' ! k"
    by (rule le_word_or2)
  then show ?thesis
    by (simp add: or_assign_all_absorbs_old [OF assms])
qed

lemma or_assign_all_frame:
  assumes "or_assign_all img width glyphBitmap ws = Inr img'" and "k < length img"
    and "\<And>i j p q. (i, j, p, q) \<in> set ws \<Longrightarrow> dst_index width i j \<noteq> int k"
  shows "img' ! k = img ! k"
  using assms
proof (induction ws arbitrary: img)
  case Nil
  then show ?case by simp
next
  case (Cons w ws)
  obtain i j p q where w: "w = (i, j, p, q)" by (cases w) auto
  from Cons.prems(1) obtain img1 where
    s: "or_assign img width glyphBitmap i j p q = Inr img1"
    and r: "or_assign_all img1 width glyphBitmap ws = Inr img'"
    by (auto simp: w split: sum.splits)
  have k1: "k < length img1"
    using or_assign_length [OF s] Cons.prems(2) by simp
  have "img' ! k = img1 ! k"
    by (rule Cons.IH [OF r k1]) (use Cons.prems(3) in auto)
  moreover have "dst_index width i j \<noteq> int k"
    using Cons.prems(3) [of i j p q] by (simp add: w)
  then have "img1 ! k = img ! k"
    using or_assign_nth [OF s Cons.prems(2)] by simp
  ultimately show ?case by simp
qed

lemma or_assign_all_absorbs_writes:
  assumes "or_assign_all img width glyphBitmap ws = Inr img'" and "(i, j, p, q) \<in> set ws"
  shows "src_index glyphBitmap p q < length (bm_buffer glyphBitmap)
       \<and> 0 \<le> dst_index width i j \<and> dst_index width i j < int (length img)
       \<and> img' ! nat (dst_index width i j) OR bm_buffer glyphBitmap ! src_index glyphBitmap p q
           = img' ! nat (dst_index width i j)"
  using assms
proof (induction ws arbitrary: img)
  case Nil
  then show ?case by simp
next
  case (Cons w ws)
  obtain i0 j0 p0 q0 where w: "w = (i0, j0, p0, q0)" by (cases w) auto
  from Cons.prems(1) obtain img1 where
    s: "or_assign img width glyphBitmap i0 j0 p0 q0 = Inr img1"
    and r: "or_assign_all img1 width glyphBitmap ws = Inr img'"
    by (auto simp: w split: sum.splits)
  have len1: "length img1 = length img"
    by (rule or_assign_length [OF s])
  show ?case
  proof (cases "(i, j, p, q) = w")
    case True
    then have e: "i0 = i" "j0 = j" "p0 = p" "q0 = q" by (simp_all add: w)
    note v = or_assign_Inr [OF s [unfolded e]]
    let ?k = "nat (dst_index width i j)"
    let ?v = "bm_buffer glyphBitmap ! src_index glyphBitmap p q"
    have k: "?k < length img" using v(2,3) by simp
    have "img1 ! ?k = img ! ?k OR ?v"
      using v(4) k by simp
    then have a: "img1 ! ?k OR ?v = img1 ! ?k"
      by (simp add: or.assoc)
    have b: "img1 ! ?k OR img' ! ?k = img' ! ?k"
      using k len1 by (intro or_assign_all_absorbs_old [OF r]) simp
    have "img' ! ?k OR ?v = (img1 ! ?k OR img' ! ?k) OR ?v"
      by (simp only: b)
    also have "\<dots> = (img1 ! ?k OR ?v) OR img' ! ?k"
      by (simp only: or.assoc or.commute or.left_commute)
    also have "\<dots> = img' ! ?k"
      by (simp only: a b)
    finally have "img' ! ?k OR ?v = img' ! ?k" .
    with v(1,2,3) show ?thesis by simp
  next
    case False
    with Cons.prems(2) have m: "(i, j, p, q) \<in> set ws" by simp
    from Cons.IH [OF r m] len1 show ?thesis by simp
  qed
qed

lemma or_assign_all_fixed:
  assumes "\<And>i j p q. (i, j, p, q) \<in> set ws \<Longrightarrow>
             src_index glyphBitmap p q < length (bm_buffer glyphBitmap)
           \<and> 0 \<le> dst_index width i j \<and> dst_index width i j < int (length img)
           \<and> img ! nat (dst_index width i j) OR bm_buffer glyphBitmap ! src_index glyphBitmap p q
               = img ! nat (dst_index width i j)"
  shows "or_assign_all img width glyphBitmap ws = Inr img"
  using assms
proof (induction ws)
  case Nil
  then show ?case by simp
next
  case (Cons w ws)
  obtain i j p q where w: "w = (i, j, p, q)" by (cases w) auto
  have "or_assign img width glyphBitmap i j p q = Inr img"
    using Cons.prems [of i j p q] by (simp add: w or_assign_valid)
  moreover have "or_assign_all img width glyphBitmap ws = Inr img"
    by (rule Cons.IH) (use Cons.prems in auto)
  ultimately show ?case by (simp add: w)
qed

lemma or_assign_all_idem:
  assumes "or_assign_all img width glyphBitmap ws = Inr img'"
  shows "or_assign_all img' width glyphBitmap ws = Inr img'"
proof (rule or_assign_all_fixed)
  fix i j p q
  assume "(i, j, p, q) \<in> set ws"
  from or_assign_all_absorbs_writes [OF assms this] or_assign_all_length [OF assms]
  show "src_index glyphBitmap p q < length (bm_buffer glyphBitmap)
      \<and> 0 \<le> dst_index width i j \<and> dst_index width i j < int (length img')
      \<and> img' ! nat (dst_index width i j) OR bm_buffer glyphBitmap ! src_index glyphBitmap p q
          = img' ! nat (dst_index width i j)"
    by simp
qed

lemma or_assign_all_succeeds:
  assumes "\<And>i j p q. (i, j, p, q) \<in> set ws \<Longrightarrow>
             src_index glyphBitmap p q < length (bm_buffer glyphBitmap)
           \<and> 0 \<le> dst_index width i j \<and> dst_index width i j < int (length img)"
  shows "\<exists>img'. or_assign_all img width glyphBitmap ws = Inr img'"
  using assms
proof (induction ws arbitrary: img)
  case Nil
  then show ?case by simp
next
  case (Cons w ws)
  obtain i j p q where w: "w = (i, j, p, q)" by (cases w) auto
  obtain img1 where s: "or_assign img width glyphBitmap i j p q = Inr img1"
    using Cons.prems [of i j p q] by (simp add: w or_assign_valid)
  have "\<exists>img'. or_assign_all img1 width glyphBitmap ws = Inr img'"
    by (rule Cons.IH) (use Cons.prems or_assign_length [OF s] in auto)
  with s show ?case by (simp add: w)
qed

section \<open>Where \<open>DrawGlyph\<close> writes\<close>

lemma DrawGlyph_rows_writes_mem:
  assumes "(i', j', p', q') \<in> set (DrawGlyph_rows_writes width height yMax' i p j q)"
  shows "i' = i \<and> p' = p \<and> q' - q = j' - j
       \<and> sint j \<le> sint j' \<and> sint j' < sint yMax'
       \<and> 0 \<le> sint i \<and> sint i < sint width \<and> 0 \<le> sint j' \<and> sint j' < sint height"
  using assms
proof (induction width height yMax' i p j q rule: DrawGlyph_rows_writes.induct)
  case (1 width height yMax' i p j q)
  from "1.prems" have lt: "j <s yMax'"
    by (subst (asm) DrawGlyph_rows_writes.simps) (simp split: if_splits)
  have succ: "sint (j + 1) = sint j + 1"
    by (rule sint_succ_sless [OF lt])
  show ?case
  proof (cases "i <s 0 \<or> j <s 0 \<or> width \<le>s i \<or> height \<le>s j")
    case True
    with "1.prems" lt
    have "(i', j', p', q') \<in> set (DrawGlyph_rows_writes width height yMax' i p (j + 1) (q + 1))"
      by (subst (asm) DrawGlyph_rows_writes.simps) simp
    from "1.IH"(1) [OF lt True this] succ show ?thesis
      by (simp add: algebra_simps)
  next
    case False
    with "1.prems" lt
    have "(i', j', p', q') = (i, j, p, q)
        \<or> (i', j', p', q') \<in> set (DrawGlyph_rows_writes width height yMax' i p (j + 1) (q + 1))"
      by (subst (asm) DrawGlyph_rows_writes.simps) simp
    then show ?thesis
    proof
      assume "(i', j', p', q') = (i, j, p, q)"
      with False lt show ?thesis
        by (simp add: word_sless_alt word_sle_eq not_less not_le)
    next
      assume "(i', j', p', q') \<in> set (DrawGlyph_rows_writes width height yMax' i p (j + 1) (q + 1))"
      from "1.IH"(2) [OF lt False this] succ show ?thesis
        by (simp add: algebra_simps)
    qed
  qed
qed

lemma DrawGlyph_cols_writes_mem:
  assumes "(i', j', p', q') \<in> set (DrawGlyph_cols_writes width height y xMax' yMax' i p)"
  shows "p' - p = i' - i \<and> q' = j' - y
       \<and> sint i \<le> sint i' \<and> sint i' < sint xMax'
       \<and> sint y \<le> sint j' \<and> sint j' < sint yMax'
       \<and> 0 \<le> sint i' \<and> sint i' < sint width \<and> 0 \<le> sint j' \<and> sint j' < sint height"
  using assms
proof (induction width height y xMax' yMax' i p rule: DrawGlyph_cols_writes.induct)
  case (1 width height y xMax' yMax' i p)
  from "1.prems" have lt: "i <s xMax'"
    by (subst (asm) DrawGlyph_cols_writes.simps) (simp split: if_splits)
  have succ: "sint (i + 1) = sint i + 1"
    by (rule sint_succ_sless [OF lt])
  from "1.prems" lt
  have "(i', j', p', q') \<in> set (DrawGlyph_rows_writes width height yMax' i p y 0)
      \<or> (i', j', p', q') \<in> set (DrawGlyph_cols_writes width height y xMax' yMax' (i + 1) (p + 1))"
    by (subst (asm) DrawGlyph_cols_writes.simps) simp
  then show ?case
  proof
    assume "(i', j', p', q') \<in> set (DrawGlyph_rows_writes width height yMax' i p y 0)"
    from DrawGlyph_rows_writes_mem [OF this] lt show ?thesis
      by (simp add: word_sless_alt)
  next
    assume "(i', j', p', q') \<in> set (DrawGlyph_cols_writes width height y xMax' yMax' (i + 1) (p + 1))"
    from "1.IH" [OF lt this] succ show ?thesis
      by (simp add: algebra_simps)
  qed
qed

lemma DrawGlyph_writes_mem:
  assumes "(i, j, p, q) \<in> set (DrawGlyph_writes width height glyphBitmap x y)"
  shows "p = i - x \<and> q = j - y
       \<and> sint x \<le> sint i \<and> sint i < sint (x + bm_width glyphBitmap)
       \<and> sint y \<le> sint j \<and> sint j < sint (y + bm_rows glyphBitmap)
       \<and> 0 \<le> sint i \<and> sint i < sint width \<and> 0 \<le> sint j \<and> sint j < sint height"
  using DrawGlyph_cols_writes_mem [OF assms [unfolded DrawGlyph_writes_def Let_def]]
  by simp

text \<open>An end that lies after the start was computed without wrapping around.\<close>

lemma sint_add_unsigned:
  fixes a w :: "'a::len word"
  assumes "sint a < sint (a + w)"
  shows "sint (a + w) = sint a + uint w"
proof -
  let ?n = "LENGTH('a)"
  let ?s = "sint a + uint w"
  have p: "(2::int) ^ ?n = 2 * 2 ^ (?n - 1)"
    by (metis len_gt_0 power_eq_if less_numeral_extra(3))
  have ra: "- (2 ^ (?n - 1)) \<le> sint a" "sint a < 2 ^ (?n - 1)"
    by (rule sint_ge, rule sint_lt)
  have rw: "0 \<le> uint w" "uint w < 2 ^ ?n"
    by simp_all
  have "a + w = word_of_int ?s"
    by simp
  then have e: "sint (a + w) = (?s + 2 ^ (?n - 1)) mod 2 ^ ?n - 2 ^ (?n - 1)"
    by (simp only: int_word_sint)
  show ?thesis
  proof (cases "?s < 2 ^ (?n - 1)")
    case True
    then have "(?s + 2 ^ (?n - 1)) mod 2 ^ ?n = ?s + 2 ^ (?n - 1)"
      using ra rw p by (intro mod_pos_pos_trivial) linarith+
    with e show ?thesis by simp
  next
    case False
    then have "(?s + 2 ^ (?n - 1) - 2 ^ ?n) mod 2 ^ ?n = ?s + 2 ^ (?n - 1) - 2 ^ ?n"
      using ra rw p by (intro mod_pos_pos_trivial) linarith+
    then have "(?s + 2 ^ (?n - 1)) mod 2 ^ ?n = ?s + 2 ^ (?n - 1) - 2 ^ ?n"
      by (metis minus_mod_self2)
    with e have "sint (a + w) = ?s - 2 ^ ?n"
      by simp
    with assms rw show ?thesis by linarith
  qed
qed

lemma uint_diff_signed:
  fixes a b :: "'a::len word"
  assumes "sint a \<le> sint b"
  shows "uint (b - a) = sint b - sint a"
proof -
  let ?n = "LENGTH('a)"
  have p: "(2::int) ^ ?n = 2 * 2 ^ (?n - 1)"
    by (metis len_gt_0 power_eq_if less_numeral_extra(3))
  have r: "- (2 ^ (?n - 1)) \<le> sint a" "sint b < 2 ^ (?n - 1)"
    by (rule sint_ge, rule sint_lt)
  have "b - a = word_of_int (sint b - sint a)"
    by simp
  then have "uint (b - a) = (sint b - sint a) mod 2 ^ ?n"
    by (simp only: uint_word_of_int)
  also have "\<dots> = sint b - sint a"
    using assms r p by (intro mod_pos_pos_trivial) linarith+
  finally show ?thesis .
qed

lemma row_major_bound:
  fixes i j W H :: int
  assumes "0 \<le> i" "i < W" "0 \<le> j" "j < H"
  shows "0 \<le> j * W + i \<and> j * W + i < W * H"
proof -
  have "j * W \<le> (H - 1) * W"
    using assms by (intro mult_right_mono) simp_all
  then have "j * W + i < (H - 1) * W + W"
    using assms by linarith
  also have "\<dots> = W * H"
    by (simp add: algebra_simps)
  finally have "j * W + i < W * H" .
  moreover have "0 \<le> j * W"
    using assms by simp
  ultimately show ?thesis
    using assms by simp
qed

lemma row_major_inj:
  fixes i j i' j' W :: int
  assumes "0 \<le> i" "i < W" "0 \<le> i'" "i' < W" and "j * W + i = j' * W + i'"
  shows "i = i' \<and> j = j'"
proof -
  have m: "(j * W + i) mod W = i" "(j' * W + i') mod W = i'"
    using assms(1-4) by simp_all
  from assms(5) have "(j * W + i) mod W = (j' * W + i') mod W"
    by (rule arg_cong)
  then have i: "i = i'"
    by (simp only: m)
  have d: "(j * W + i) div W = j" "(j' * W + i') div W = j'"
    using assms(1-4) by simp_all
  from assms(5) have "(j * W + i) div W = (j' * W + i') div W"
    by (rule arg_cong)
  then have "j = j'"
    by (simp only: d)
  with i show ?thesis by simp
qed

lemma dst_index_canvas:
  assumes "canvas img width height"
    and "0 \<le> sint i" "sint i < sint width" "0 \<le> sint j" "sint j < sint height"
  shows "dst_index width i j = sint j * sint width + sint i"
    and "0 \<le> dst_index width i j" and "dst_index width i j < int (length img)"
proof -
  let ?k = "sint j * sint width + sint i"
  have b: "0 \<le> ?k \<and> ?k < sint width * sint height"
    using assms(2-5) by (rule row_major_bound)
  with assms(1) have r: "0 \<le> ?k" "?k < 2147483648" "?k < int (length img)"
    by (simp_all add: canvas_def)
  have "j * width + i = word_of_int ?k"
    by simp
  then have "dst_index width i j = sint (word_of_int ?k :: FT_Int)"
    by (simp only: dst_index_def)
  also have "\<dots> = ?k"
    using r by (intro sint_word_of_int_self) simp_all
  finally show "dst_index width i j = ?k" .
  with r show "0 \<le> dst_index width i j" "dst_index width i j < int (length img)"
    by simp_all
qed

lemma src_index_bitmap:
  assumes "glyph_bitmap glyphBitmap"
    and "uint p < uint (bm_width glyphBitmap)" "uint q < uint (bm_rows glyphBitmap)"
  shows "src_index glyphBitmap p q < length (bm_buffer glyphBitmap)"
proof -
  let ?w = "unat (bm_width glyphBitmap)" and ?r = "unat (bm_rows glyphBitmap)"
  have pq: "unat p < ?w" "unat q < ?r"
    using assms(2,3) by (simp_all only: word_less_def [symmetric] word_less_nat_alt)
  have "unat (q * bm_width glyphBitmap) \<le> unat q * ?w"
    by (simp only: unat_word_ariths(2) mod_less_eq_dividend)
  moreover have "unat (q * bm_width glyphBitmap + p) \<le> unat (q * bm_width glyphBitmap) + unat p"
    by (simp only: unat_word_ariths(1) mod_less_eq_dividend)
  ultimately have "src_index glyphBitmap p q \<le> unat q * ?w + unat p"
    unfolding src_index_def by linarith
  also have "\<dots> < unat q * ?w + ?w"
    using pq by simp
  also have "\<dots> = Suc (unat q) * ?w"
    by simp
  also have "\<dots> \<le> ?r * ?w"
    using pq by (intro mult_le_mono1) simp
  finally show ?thesis
    using assms(1) by (simp add: glyph_bitmap_def)
qed

lemma DrawGlyph_writes_covered:
  assumes "(i, j, p, q) \<in> set (DrawGlyph_writes width height glyphBitmap x y)"
  shows "covered glyphBitmap x y (sint i) (sint j)"
    and "uint p = sint i - sint x" and "uint q = sint j - sint y"
    and "0 \<le> sint i" "sint i < sint width" "0 \<le> sint j" "sint j < sint height"
proof -
  note m = DrawGlyph_writes_mem [OF assms]
  from m have x: "sint (x + bm_width glyphBitmap) = sint x + uint (bm_width glyphBitmap)"
    by (intro sint_add_unsigned) linarith
  from m have y: "sint (y + bm_rows glyphBitmap) = sint y + uint (bm_rows glyphBitmap)"
    by (intro sint_add_unsigned) linarith
  from m x y show "covered glyphBitmap x y (sint i) (sint j)"
    by (simp add: covered_def)
  from m show "uint p = sint i - sint x" "uint q = sint j - sint y"
    by (simp_all add: uint_diff_signed)
  from m show "0 \<le> sint i" "sint i < sint width" "0 \<le> sint j" "sint j < sint height"
    by simp_all
qed

lemma DrawGlyph_succeeds:
  assumes "canvas img width height" and "glyph_bitmap glyphBitmap"
  shows "\<exists>img'. DrawGlyph img width height glyphBitmap x y = Inr img'"
  unfolding DrawGlyph_eq
proof (rule or_assign_all_succeeds)
  fix i j p q
  assume w: "(i, j, p, q) \<in> set (DrawGlyph_writes width height glyphBitmap x y)"
  note c = DrawGlyph_writes_covered [OF w]
  from c(1,2,3) have "uint p < uint (bm_width glyphBitmap)" "uint q < uint (bm_rows glyphBitmap)"
    by (simp_all add: covered_def)
  with assms(2) have "src_index glyphBitmap p q < length (bm_buffer glyphBitmap)"
    by (rule src_index_bitmap)
  with dst_index_canvas(2,3) [OF assms(1) c(4-7)]
  show "src_index glyphBitmap p q < length (bm_buffer glyphBitmap)
      \<and> 0 \<le> dst_index width i j \<and> dst_index width i j < int (length img)"
    by simp
qed

lemma DrawGlyph_canvas:
  assumes "canvas img width height" and "DrawGlyph img width height glyphBitmap x y = Inr img'"
  shows "canvas img' width height"
  using assms or_assign_all_length [OF assms(2) [unfolded DrawGlyph_eq]]
  by (simp add: canvas_def)

lemma DrawGlyph_frame:
  assumes "canvas img width height" and "DrawGlyph img width height glyphBitmap x y = Inr img'"
    and "0 \<le> i" "i < sint width" "0 \<le> j" "j < sint height"
    and "\<not> covered glyphBitmap x y i j"
  shows "pixel img' width i j = pixel img width i j"
proof -
  let ?k = "nat (j * sint width + i)"
  have b: "0 \<le> j * sint width + i \<and> j * sint width + i < sint width * sint height"
    using assms(3-6) by (rule row_major_bound)
  with assms(1) have k: "?k < length img"
    by (simp add: canvas_def nat_less_iff)
  have "img' ! ?k = img ! ?k"
  proof (rule or_assign_all_frame [OF assms(2) [unfolded DrawGlyph_eq] k])
    fix i' j' p q
    assume w: "(i', j', p, q) \<in> set (DrawGlyph_writes width height glyphBitmap x y)"
    note c = DrawGlyph_writes_covered [OF w]
    have d: "dst_index width i' j' = sint j' * sint width + sint i'"
      by (rule dst_index_canvas(1) [OF assms(1) c(4-7)])
    show "dst_index width i' j' \<noteq> int ?k"
    proof
      assume "dst_index width i' j' = int ?k"
      with d b have "sint j' * sint width + sint i' = j * sint width + i"
        by simp
      with c(4,5) assms(3,4) have "sint i' = i \<and> sint j' = j"
        by (intro row_major_inj [of _ "sint width"]) simp_all
      with c(1) assms(7) show False by simp
    qed
  qed
  then show ?thesis by (simp add: pixel_def)
qed

lemma DrawGlyph_mono:
  assumes "canvas img width height" and "DrawGlyph img width height glyphBitmap x y = Inr img'"
    and "0 \<le> i" "i < sint width" "0 \<le> j" "j < sint height"
  shows "pixel img width i j \<le> pixel img' width i j"
proof -
  have b: "0 \<le> j * sint width + i \<and> j * sint width + i < sint width * sint height"
    using assms(3-6) by (rule row_major_bound)
  with assms(1) have k: "nat (j * sint width + i) < length img"
    by (simp add: canvas_def nat_less_iff)
  show ?thesis
    unfolding pixel_def by (rule or_assign_all_mono [OF assms(2) [unfolded DrawGlyph_eq] k])
qed

section \<open>The render pass as a list of calls\<close>

lemma render_loop_calls:
  "map_sum id fst (render_loop load width height glyphCodepoints img translation) =
     DrawGlyph_calls img width height (render_calls load height glyphCodepoints translation)"
  by (induction glyphCodepoints arbitrary: img translation)
     (simp_all add: Let_def split: sum.splits)

lemma DrawGlyph_calls_safe:
  assumes "canvas img width height"
    and "\<And>translation glyphBitmap x y. (translation, glyphBitmap, x, y) \<in> set calls \<Longrightarrow> glyph_bitmap glyphBitmap"
  shows "\<exists>img'. DrawGlyph_calls img width height calls = Inr img' \<and> canvas img' width height
           \<and> (\<forall>i j. 0 \<le> i \<and> i < sint width \<and> 0 \<le> j \<and> j < sint height \<longrightarrow>
                  pixel img width i j \<le> pixel img' width i j
                \<and> ((\<forall>(translation, glyphBitmap, x, y) \<in> set calls. \<not> covered glyphBitmap x y i j) \<longrightarrow>
                     pixel img' width i j = pixel img width i j))"
  using assms
proof (induction calls arbitrary: img)
  case Nil
  then show ?case by simp
next
  case (Cons c calls)
  obtain translation glyphBitmap x y where c: "c = (translation, glyphBitmap, x, y)"
    by (cases c) auto
  have gb: "glyph_bitmap glyphBitmap"
    using Cons.prems(2) [of translation glyphBitmap x y] by (simp add: c)
  obtain img1 where d: "DrawGlyph img width height glyphBitmap x y = Inr img1"
    using DrawGlyph_succeeds [OF Cons.prems(1) gb] by blast
  have c1: "canvas img1 width height"
    by (rule DrawGlyph_canvas [OF Cons.prems(1) d])
  have "\<exists>img'. DrawGlyph_calls img1 width height calls = Inr img' \<and> canvas img' width height
           \<and> (\<forall>i j. 0 \<le> i \<and> i < sint width \<and> 0 \<le> j \<and> j < sint height \<longrightarrow>
                  pixel img1 width i j \<le> pixel img' width i j
                \<and> ((\<forall>(translation, glyphBitmap, x, y) \<in> set calls. \<not> covered glyphBitmap x y i j) \<longrightarrow>
                     pixel img' width i j = pixel img1 width i j))"
    by (rule Cons.IH [OF c1]) (use Cons.prems(2) in auto)
  then obtain img' where r: "DrawGlyph_calls img1 width height calls = Inr img'"
    and c': "canvas img' width height"
    and p: "\<And>i j. 0 \<le> i \<Longrightarrow> i < sint width \<Longrightarrow> 0 \<le> j \<Longrightarrow> j < sint height \<Longrightarrow>
                  pixel img1 width i j \<le> pixel img' width i j
                \<and> ((\<forall>(translation, glyphBitmap, x, y) \<in> set calls. \<not> covered glyphBitmap x y i j) \<longrightarrow>
                     pixel img' width i j = pixel img1 width i j)"
    by blast
  have "DrawGlyph_calls img width height (c # calls) = Inr img'"
    by (simp add: c d r)
  moreover have "pixel img width i j \<le> pixel img' width i j
                \<and> ((\<forall>(translation, glyphBitmap, x, y) \<in> set (c # calls). \<not> covered glyphBitmap x y i j) \<longrightarrow>
                     pixel img' width i j = pixel img width i j)"
    if b: "0 \<le> i" "i < sint width" "0 \<le> j" "j < sint height" for i j
  proof -
    have "pixel img width i j \<le> pixel img1 width i j"
      by (rule DrawGlyph_mono [OF Cons.prems(1) d b])
    moreover from p [OF b] have "pixel img1 width i j \<le> pixel img' width i j"
      by (rule conjunct1)
    ultimately have m: "pixel img width i j \<le> pixel img' width i j"
      by (rule order_trans)
    have "pixel img' width i j = pixel img width i j"
      if u: "\<forall>(translation, glyphBitmap, x, y) \<in> set (c # calls). \<not> covered glyphBitmap x y i j"
    proof -
      from u have "\<not> covered glyphBitmap x y i j"
        by (simp add: c)
      then have "pixel img1 width i j = pixel img width i j"
        by (rule DrawGlyph_frame [OF Cons.prems(1) d b])
      moreover from u p [OF b] have "pixel img' width i j = pixel img1 width i j"
        by simp
      ultimately show ?thesis by simp
    qed
    with m show ?thesis by blast
  qed
  ultimately show ?case
    using c' by blast
qed

lemma render_calls_bitmap:
  assumes "(translation', glyphBitmap, x, y) \<in> set (render_calls load height glyphCodepoints translation)"
  shows "\<exists>t c. glyphBitmap = bitmap (load t c)"
  using assms
  by (induction glyphCodepoints arbitrary: translation) (auto simp: Let_def)

lemma new_image_pixel:
  assumes "new_image width height = Inr img" and "canvas img width height"
    and "0 \<le> i" "i < sint width" "0 \<le> j" "j < sint height"
  shows "pixel img width i j = 0"
proof -
  have b: "0 \<le> j * sint width + i \<and> j * sint width + i < sint width * sint height"
    using assms(3-6) by (rule row_major_bound)
  with assms(2) have k: "nat (j * sint width + i) < length img"
    by (simp add: canvas_def nat_less_iff)
  from assms(1) have "img = replicate (length img) 0"
    by (auto simp: new_image_def Let_def split: if_splits)
  then have "img ! nat (j * sint width + i) = 0"
    using k by (metis nth_replicate)
  then show ?thesis by (simp add: pixel_def)
qed

section \<open>Clipping, idempotence and monotonicity\<close>

lemma render_loop_safe:
  assumes "canvas img width height"
    and "\<forall>translation codepoint. glyph_bitmap (bitmap (load translation codepoint))"
  shows "\<exists>img' translation'.
           render_loop load width height glyphCodepoints img translation = Inr (img', translation')
         \<and> canvas img' width height
         \<and> (\<forall>i j. 0 \<le> i \<and> i < sint width \<and> 0 \<le> j \<and> j < sint height \<longrightarrow>
                pixel img width i j \<le> pixel img' width i j
              \<and> ((\<forall>(t, glyphBitmap, x, y) \<in> set (render_calls load height glyphCodepoints translation).
                     \<not> covered glyphBitmap x y i j) \<longrightarrow>
                   pixel img' width i j = pixel img width i j))"
proof -
  let ?calls = "render_calls load height glyphCodepoints translation"
  have "\<exists>img'. DrawGlyph_calls img width height ?calls = Inr img' \<and> canvas img' width height
           \<and> (\<forall>i j. 0 \<le> i \<and> i < sint width \<and> 0 \<le> j \<and> j < sint height \<longrightarrow>
                  pixel img width i j \<le> pixel img' width i j
                \<and> ((\<forall>(t, glyphBitmap, x, y) \<in> set ?calls. \<not> covered glyphBitmap x y i j) \<longrightarrow>
                     pixel img' width i j = pixel img width i j))"
  proof (rule DrawGlyph_calls_safe [OF assms(1)])
    fix t glyphBitmap x y
    assume "(t, glyphBitmap, x, y) \<in> set ?calls"
    from render_calls_bitmap [OF this] assms(2) show "glyph_bitmap glyphBitmap"
      by auto
  qed
  then obtain img' where d: "DrawGlyph_calls img width height ?calls = Inr img'"
    and rest: "canvas img' width height
           \<and> (\<forall>i j. 0 \<le> i \<and> i < sint width \<and> 0 \<le> j \<and> j < sint height \<longrightarrow>
                  pixel img width i j \<le> pixel img' width i j
                \<and> ((\<forall>(t, glyphBitmap, x, y) \<in> set ?calls. \<not> covered glyphBitmap x y i j) \<longrightarrow>
                     pixel img' width i j = pixel img width i j))"
    by blast
  from d have "map_sum id fst (render_loop load width height glyphCodepoints img translation) = Inr img'"
    by (simp only: render_loop_calls)
  then obtain translation' where
    "render_loop load width height glyphCodepoints img translation = Inr (img', translation')"
    by (cases "render_loop load width height glyphCodepoints img translation") auto
  with rest show ?thesis by blast
qed

text \<open>
  C3. For every canvas of dimensions \<open>width\<close> by \<open>height\<close>, every glyph bitmap and
  every destination \<open>(x, y)\<close>, negative and far out of range included:
  \<^item> each write of \<open>DrawGlyph\<close> is at a column \<open>0 \<le> i < width\<close> and a row
    \<open>0 \<le> j < height\<close>, and its index lies inside the image;
  \<^item> \<open>DrawGlyph\<close> is exactly that list of writes, returns without a fault, and
    leaves every pixel outside the destination rectangle as it was;
  \<^item> the whole render pass returns without a fault, and a pixel that no glyph's
    destination rectangle covers keeps its value, which is zero on the canvas
    that \<open>new_image\<close> allocates.
\<close>

theorem DrawGlyph_clipping:
  assumes "canvas img width height" and "glyph_bitmap glyphBitmap"
    and "\<forall>translation codepoint. glyph_bitmap (bitmap (load translation codepoint))"
  shows "(\<forall>(i, j, p, q) \<in> set (DrawGlyph_writes width height glyphBitmap x y).
            0 \<le> sint i \<and> sint i < sint width \<and> 0 \<le> sint j \<and> sint j < sint height
          \<and> 0 \<le> dst_index width i j \<and> dst_index width i j < int (length img))
       \<and> DrawGlyph img width height glyphBitmap x y =
           or_assign_all img width glyphBitmap (DrawGlyph_writes width height glyphBitmap x y)
       \<and> (\<exists>img'. DrawGlyph img width height glyphBitmap x y = Inr img'
             \<and> length img' = length img
             \<and> (\<forall>i j. 0 \<le> i \<and> i < sint width \<and> 0 \<le> j \<and> j < sint height
                      \<and> \<not> covered glyphBitmap x y i j \<longrightarrow>
                    pixel img' width i j = pixel img width i j))
       \<and> (\<exists>img' translation'.
             render_loop load width height glyphCodepoints img translation = Inr (img', translation')
             \<and> length img' = length img
             \<and> (\<forall>i j. 0 \<le> i \<and> i < sint width \<and> 0 \<le> j \<and> j < sint height
                      \<and> (\<forall>(t, glyphBitmap, x, y) \<in> set (render_calls load height glyphCodepoints translation).
                            \<not> covered glyphBitmap x y i j) \<longrightarrow>
                    pixel img' width i j = pixel img width i j
                  \<and> (new_image width height = Inr img \<longrightarrow> pixel img' width i j = 0)))"
proof (intro conjI)
  show "\<forall>(i, j, p, q) \<in> set (DrawGlyph_writes width height glyphBitmap x y).
            0 \<le> sint i \<and> sint i < sint width \<and> 0 \<le> sint j \<and> sint j < sint height
          \<and> 0 \<le> dst_index width i j \<and> dst_index width i j < int (length img)"
  proof (clarify, intro conjI)
    fix i j p q
    assume w: "(i, j, p, q) \<in> set (DrawGlyph_writes width height glyphBitmap x y)"
    note c = DrawGlyph_writes_covered [OF w]
    from c show "0 \<le> sint i" "sint i < sint width" "0 \<le> sint j" "sint j < sint height"
      by simp_all
    from dst_index_canvas(2,3) [OF assms(1) c(4-7)]
    show "0 \<le> dst_index width i j" "dst_index width i j < int (length img)"
      by simp_all
  qed
next
  show "DrawGlyph img width height glyphBitmap x y =
           or_assign_all img width glyphBitmap (DrawGlyph_writes width height glyphBitmap x y)"
    by (rule DrawGlyph_eq)
next
  obtain img' where d: "DrawGlyph img width height glyphBitmap x y = Inr img'"
    using DrawGlyph_succeeds [OF assms(1,2)] by blast
  have "length img' = length img"
    by (rule or_assign_all_length [OF d [unfolded DrawGlyph_eq]])
  moreover have "\<forall>i j. 0 \<le> i \<and> i < sint width \<and> 0 \<le> j \<and> j < sint height
                      \<and> \<not> covered glyphBitmap x y i j \<longrightarrow>
                    pixel img' width i j = pixel img width i j"
    using DrawGlyph_frame [OF assms(1) d] by blast
  ultimately show "\<exists>img'. DrawGlyph img width height glyphBitmap x y = Inr img'
             \<and> length img' = length img
             \<and> (\<forall>i j. 0 \<le> i \<and> i < sint width \<and> 0 \<le> j \<and> j < sint height
                      \<and> \<not> covered glyphBitmap x y i j \<longrightarrow>
                    pixel img' width i j = pixel img width i j)"
    using d by blast
next
  from render_loop_safe [OF assms(1,3), of glyphCodepoints translation]
  obtain img' translation' where
    r: "render_loop load width height glyphCodepoints img translation = Inr (img', translation')"
    and c: "canvas img' width height"
    and f: "\<And>i j. 0 \<le> i \<Longrightarrow> i < sint width \<Longrightarrow> 0 \<le> j \<Longrightarrow> j < sint height \<Longrightarrow>
              (\<forall>(t, glyphBitmap, x, y) \<in> set (render_calls load height glyphCodepoints translation).
                     \<not> covered glyphBitmap x y i j) \<Longrightarrow>
              pixel img' width i j = pixel img width i j"
    by blast
  have len: "length img' = length img"
    using assms(1) c by (simp add: canvas_def)
  have "pixel img' width i j = pixel img width i j
      \<and> (new_image width height = Inr img \<longrightarrow> pixel img' width i j = 0)"
    if "0 \<le> i" "i < sint width" "0 \<le> j" "j < sint height"
      and "\<forall>(t, glyphBitmap, x, y) \<in> set (render_calls load height glyphCodepoints translation).
             \<not> covered glyphBitmap x y i j" for i j
    using f [OF that] new_image_pixel [OF _ assms(1) that(1-4)] by simp
  with r len show "\<exists>img' translation'.
             render_loop load width height glyphCodepoints img translation = Inr (img', translation')
             \<and> length img' = length img
             \<and> (\<forall>i j. 0 \<le> i \<and> i < sint width \<and> 0 \<le> j \<and> j < sint height
                      \<and> (\<forall>(t, glyphBitmap, x, y) \<in> set (render_calls load height glyphCodepoints translation).
                            \<not> covered glyphBitmap x y i j) \<longrightarrow>
                    pixel img' width i j = pixel img width i j
                  \<and> (new_image width height = Inr img \<longrightarrow> pixel img' width i j = 0))"
    by blast
qed

text \<open>
  C3 on a three by two canvas, with a two by two bitmap drawn at \<open>(2, -1)\<close>: only
  its lower left pixel lands on the canvas.
\<close>

theorem DrawGlyph_clipping_witness:
  "canvas [0, 0, 0, 0, 0, 0] 3 2
 \<and> glyph_bitmap \<lparr>bm_rows = 2, bm_width = 2, bm_buffer = [255, 128, 7, 9]\<rparr>
 \<and> (\<forall>translation codepoint. glyph_bitmap (bitmap (toy_font translation codepoint)))
 \<and> (\<exists>img'. DrawGlyph [0, 0, 0, 0, 0, 0] 3 2
              \<lparr>bm_rows = 2, bm_width = 2, bm_buffer = [255, 128, 7, 9]\<rparr> 2 (- 1) = Inr img'
           \<and> length img' = 6 \<and> pixel img' 3 0 0 = 0)"
proof -
  have c: "canvas [0, 0, 0, 0, 0, 0] 3 2"
    by (simp add: canvas_def)
  have g: "glyph_bitmap \<lparr>bm_rows = 2, bm_width = 2, bm_buffer = [255, 128, 7, 9]\<rparr>"
    by (simp add: glyph_bitmap_def)
  have f: "\<forall>translation codepoint. glyph_bitmap (bitmap (toy_font translation codepoint))"
    by (simp add: glyph_bitmap_def toy_font_def)
  have n: "\<not> covered \<lparr>bm_rows = 2, bm_width = 2, bm_buffer = [255, 128, 7, 9]\<rparr> 2 (- 1) 0 0"
    by (simp add: covered_def)
  from DrawGlyph_clipping [OF c g f, of 2 "- 1" "[]" "\<lparr>vec_x = 0, vec_y = 0\<rparr>"]
  obtain img' where
    "DrawGlyph [0, 0, 0, 0, 0, 0] 3 2
       \<lparr>bm_rows = 2, bm_width = 2, bm_buffer = [255, 128, 7, 9]\<rparr> 2 (- 1) = Inr img'"
    and "length img' = length [0::byte, 0, 0, 0, 0, 0]"
    and "\<forall>i j. 0 \<le> i \<and> i < sint (3::FT_Int) \<and> 0 \<le> j \<and> j < sint (2::FT_Int)
           \<and> \<not> covered \<lparr>bm_rows = 2, bm_width = 2, bm_buffer = [255, 128, 7, 9]\<rparr> 2 (- 1) i j \<longrightarrow>
           pixel img' 3 i j = pixel [0, 0, 0, 0, 0, 0] 3 i j"
    by blast
  note r = this
  from r(3) [rule_format, of 0 0] n have "pixel img' 3 0 0 = pixel [0, 0, 0, 0, 0, 0] 3 0 0"
    by simp
  then have "pixel img' 3 0 0 = 0"
    by (simp add: pixel_def)
  with r(1,2) have "DrawGlyph [0, 0, 0, 0, 0, 0] 3 2
       \<lparr>bm_rows = 2, bm_width = 2, bm_buffer = [255, 128, 7, 9]\<rparr> 2 (- 1) = Inr img'
     \<and> length img' = 6 \<and> pixel img' 3 0 0 = 0"
    by simp
  with c g f show ?thesis by blast
qed

text \<open>
  C8. Drawing the same bitmap at the same place a second time changes nothing:
  whenever \<open>DrawGlyph\<close> returns an image, \<open>DrawGlyph\<close> on that image returns it
  again; and on a canvas with a well-formed bitmap it does return one.
\<close>

theorem DrawGlyph_idempotent:
  "(\<forall>img'. DrawGlyph img width height glyphBitmap x y = Inr img' \<longrightarrow>
            DrawGlyph img' width height glyphBitmap x y = Inr img')
 \<and> (canvas img width height \<and> glyph_bitmap glyphBitmap \<longrightarrow>
      (\<exists>img'. DrawGlyph img width height glyphBitmap x y = Inr img'
            \<and> DrawGlyph img' width height glyphBitmap x y = Inr img'))"
proof -
  have a: "DrawGlyph img' width height glyphBitmap x y = Inr img'"
    if "DrawGlyph img width height glyphBitmap x y = Inr img'" for img'
    using that unfolding DrawGlyph_eq by (rule or_assign_all_idem)
  moreover have "\<exists>img'. DrawGlyph img width height glyphBitmap x y = Inr img'
            \<and> DrawGlyph img' width height glyphBitmap x y = Inr img'"
    if "canvas img width height" "glyph_bitmap glyphBitmap"
    using DrawGlyph_succeeds [OF that] a by blast
  ultimately show ?thesis by blast
qed

text \<open>C8 on a canvas that already holds ink: \<open>3 OR 12 = 15\<close>, and again 15.\<close>

theorem DrawGlyph_idempotent_witness:
  "DrawGlyph [1, 2, 3, 4, 5, 6] 3 2
     \<lparr>bm_rows = 2, bm_width = 2, bm_buffer = [255, 128, 12, 9]\<rparr> 2 (- 1) = Inr [1, 2, 15, 4, 5, 6]
 \<and> DrawGlyph [1, 2, 15, 4, 5, 6] 3 2
     \<lparr>bm_rows = 2, bm_width = 2, bm_buffer = [255, 128, 12, 9]\<rparr> 2 (- 1) = Inr [1, 2, 15, 4, 5, 6]"
proof -
  have "DrawGlyph [1, 2, 3, 4, 5, 6] 3 2
     \<lparr>bm_rows = 2, bm_width = 2, bm_buffer = [255, 128, 12, 9]\<rparr> 2 (- 1) = Inr [1, 2, 15, 4, 5, 6]"
    by code_simp
  with DrawGlyph_idempotent [of "[1, 2, 3, 4, 5, 6]" 3 2
         "\<lparr>bm_rows = 2, bm_width = 2, bm_buffer = [255, 128, 12, 9]\<rparr>" 2 "- 1"]
  show ?thesis by blast
qed

text \<open>
  C10. After \<open>DrawGlyph\<close> every byte of the image is at least what it was, and
  holds every bit it held (\<open>old OR new = new\<close>). On a canvas this is so for every
  pixel \<open>0 \<le> i < width\<close>, \<open>0 \<le> j < height\<close>, after one call and after the whole
  render pass.
\<close>

theorem DrawGlyph_monotone:
  "(\<forall>img'. DrawGlyph img width height glyphBitmap x y = Inr img' \<longrightarrow>
            length img' = length img
          \<and> (\<forall>k < length img. img ! k \<le> img' ! k \<and> img ! k OR img' ! k = img' ! k))
 \<and> (canvas img width height \<and> glyph_bitmap glyphBitmap \<longrightarrow>
      (\<exists>img'. DrawGlyph img width height glyphBitmap x y = Inr img'
            \<and> (\<forall>i j. 0 \<le> i \<and> i < sint width \<and> 0 \<le> j \<and> j < sint height \<longrightarrow>
                   pixel img width i j \<le> pixel img' width i j)))
 \<and> (canvas img width height
      \<and> (\<forall>translation codepoint. glyph_bitmap (bitmap (load translation codepoint))) \<longrightarrow>
      (\<exists>img' translation'.
          render_loop load width height glyphCodepoints img translation = Inr (img', translation')
        \<and> (\<forall>i j. 0 \<le> i \<and> i < sint width \<and> 0 \<le> j \<and> j < sint height \<longrightarrow>
               pixel img width i j \<le> pixel img' width i j)))"
proof (intro conjI)
  show "\<forall>img'. DrawGlyph img width height glyphBitmap x y = Inr img' \<longrightarrow>
            length img' = length img
          \<and> (\<forall>k < length img. img ! k \<le> img' ! k \<and> img ! k OR img' ! k = img' ! k)"
    unfolding DrawGlyph_eq
    using or_assign_all_length or_assign_all_mono or_assign_all_absorbs_old by blast
next
  show "canvas img width height \<and> glyph_bitmap glyphBitmap \<longrightarrow>
      (\<exists>img'. DrawGlyph img width height glyphBitmap x y = Inr img'
            \<and> (\<forall>i j. 0 \<le> i \<and> i < sint width \<and> 0 \<le> j \<and> j < sint height \<longrightarrow>
                   pixel img width i j \<le> pixel img' width i j))"
  proof
    assume a: "canvas img width height \<and> glyph_bitmap glyphBitmap"
    then obtain img' where d: "DrawGlyph img width height glyphBitmap x y = Inr img'"
      using DrawGlyph_succeeds by blast
    from a have "\<forall>i j. 0 \<le> i \<and> i < sint width \<and> 0 \<le> j \<and> j < sint height \<longrightarrow>
                   pixel img width i j \<le> pixel img' width i j"
      using DrawGlyph_mono [OF _ d] by blast
    with d show "\<exists>img'. DrawGlyph img width height glyphBitmap x y = Inr img'
            \<and> (\<forall>i j. 0 \<le> i \<and> i < sint width \<and> 0 \<le> j \<and> j < sint height \<longrightarrow>
                   pixel img width i j \<le> pixel img' width i j)"
      by blast
  qed
next
  show "canvas img width height
      \<and> (\<forall>translation codepoint. glyph_bitmap (bitmap (load translation codepoint))) \<longrightarrow>
      (\<exists>img' translation'.
          render_loop load width height glyphCodepoints img translation = Inr (img', translation')
        \<and> (\<forall>i j. 0 \<le> i \<and> i < sint width \<and> 0 \<le> j \<and> j < sint height \<longrightarrow>
               pixel img width i j \<le> pixel img' width i j))"
  proof
    assume a: "canvas img width height
      \<and> (\<forall>translation codepoint. glyph_bitmap (bitmap (load translation codepoint)))"
    from render_loop_safe [of img width height load glyphCodepoints translation] a
    show "\<exists>img' translation'.
          render_loop load width height glyphCodepoints img translation = Inr (img', translation')
        \<and> (\<forall>i j. 0 \<le> i \<and> i < sint width \<and> 0 \<le> j \<and> j < sint height \<longrightarrow>
               pixel img width i j \<le> pixel img' width i j)"
      by blast
  qed
qed

text \<open>C10 on the same canvas: the pixel that held 3 holds at least 3 afterwards.\<close>

theorem DrawGlyph_monotone_witness:
  "canvas [1, 2, 3, 4, 5, 6] 3 2
 \<and> glyph_bitmap \<lparr>bm_rows = 2, bm_width = 2, bm_buffer = [255, 128, 12, 9]\<rparr>
 \<and> (\<exists>img'. DrawGlyph [1, 2, 3, 4, 5, 6] 3 2
              \<lparr>bm_rows = 2, bm_width = 2, bm_buffer = [255, 128, 12, 9]\<rparr> 2 (- 1) = Inr img'
           \<and> 3 \<le> pixel img' 3 2 0)"
proof -
  have c: "canvas [1, 2, 3, 4, 5, 6] 3 2"
    by (simp add: canvas_def)
  have g: "glyph_bitmap \<lparr>bm_rows = 2, bm_width = 2, bm_buffer = [255, 128, 12, 9]\<rparr>"
    by (simp add: glyph_bitmap_def)
  from DrawGlyph_monotone [of "[1, 2, 3, 4, 5, 6]" 3 2
         "\<lparr>bm_rows = 2, bm_width = 2, bm_buffer = [255, 128, 12, 9]\<rparr>" 2 "- 1"] c g
  obtain img' where
    "DrawGlyph [1, 2, 3, 4, 5, 6] 3 2
       \<lparr>bm_rows = 2, bm_width = 2, bm_buffer = [255, 128, 12, 9]\<rparr> 2 (- 1) = Inr img'"
    and "\<forall>i j. 0 \<le> i \<and> i < sint (3::FT_Int) \<and> 0 \<le> j \<and> j < sint (2::FT_Int) \<longrightarrow>
           pixel [1, 2, 3, 4, 5, 6] 3 i j \<le> pixel img' 3 i j"
    by blast
  note r = this
  from r(2) [rule_format, of 2 0] have "pixel [1, 2, 3, 4, 5, 6] 3 2 0 \<le> pixel img' 3 2 0"
    by simp
  with r(1) have "DrawGlyph [1, 2, 3, 4, 5, 6] 3 2
       \<lparr>bm_rows = 2, bm_width = 2, bm_buffer = [255, 128, 12, 9]\<rparr> 2 (- 1) = Inr img'
     \<and> 3 \<le> pixel img' 3 2 0"
    by (simp add: pixel_def)
  with c g show ?thesis by blast
qed

lemma new_image_canvas:
  assumes "0 \<le> sint width" and "0 \<le> sint height" and "sint width * sint height \<le> 2147483647"
  shows "\<exists>img. new_image width height = Inr img \<and> canvas img width height"
proof -
  let ?n = "sint width * sint height"
  have nn: "0 \<le> ?n"
    using assms(1,2) by simp
  have s: "sint (width * height) = ?n"
    using nn assms(3) sint_word_of_int_self [of ?n, where 'a = 32] by simp
  from nn have "\<not> sint (width * height) < 0"
    by (simp only: s not_less)
  then have n: "new_image width height = Inr (replicate (nat ?n) 0)"
    by (simp only: new_image_def Let_def if_False s)
  from nn have "int (length (replicate (nat ?n) (0::byte))) = ?n"
    by (simp only: length_replicate int_nat_eq if_True)
  with assms have "canvas (replicate (nat ?n) 0) width height"
    unfolding canvas_def by blast
  with n show ?thesis by blast
qed

lemma FreeType_rendering_prints:
  assumes "width = canvas_width (ms_bbox (metrics_pass load glyphCodepoints))"
    and "height = canvas_height (ms_bbox (metrics_pass load glyphCodepoints))"
    and "0 \<le> sint width" and "0 \<le> sint height" and "sint width * sint height \<le> 2147483647"
    and "\<forall>translation codepoint. glyph_bitmap (bitmap (load translation codepoint))"
  shows "\<exists>img. FreeType_rendering load glyphCodepoints = Printed width height img
             \<and> canvas img width height"
proof -
  from new_image_canvas [OF assms(3-5)] obtain img0 where
    n: "new_image width height = Inr img0" and c: "canvas img0 width height"
    by blast
  from render_loop_safe [OF c assms(6)] obtain img translation' where
    "render_loop load width height glyphCodepoints img0
       \<lparr>vec_x = 0, vec_y = scast (ms_aboveOriginShift (metrics_pass load glyphCodepoints))\<rparr>
       = Inr (img, translation')"
    and "canvas img width height"
    by blast
  with n show ?thesis
    by (simp add: FreeType_rendering_def Let_def assms(1,2) [symmetric])
qed

section \<open>The bounding box of the metrics pass\<close>

lemma metrics_step_widens:
  "sint (xMin (ms_bbox (metrics_step load codepoint s))) \<le> sint (xMin (ms_bbox s))
 \<and> sint (yMin (ms_bbox (metrics_step load codepoint s))) \<le> sint (yMin (ms_bbox s))
 \<and> sint (xMax (ms_bbox s)) \<le> sint (xMax (ms_bbox (metrics_step load codepoint s)))
 \<and> sint (yMax (ms_bbox s)) \<le> sint (yMax (ms_bbox (metrics_step load codepoint s)))"
  by (simp add: metrics_step_def Let_def word_sless_alt)

lemma metrics_step_contains:
  "sint (xMin (ms_bbox (metrics_step load codepoint s)))
     \<le> sint (xMin (cbox (load (ms_translation s) codepoint)))
 \<and> sint (yMin (ms_bbox (metrics_step load codepoint s)))
     \<le> sint (yMin (cbox (load (ms_translation s) codepoint)))
 \<and> sint (xMax (cbox (load (ms_translation s) codepoint)))
     \<le> sint (xMax (ms_bbox (metrics_step load codepoint s)))
 \<and> sint (yMax (cbox (load (ms_translation s) codepoint)))
     \<le> sint (yMax (ms_bbox (metrics_step load codepoint s)))"
  by (simp add: metrics_step_def Let_def word_sless_alt)

lemma metrics_loop_widens:
  "sint (xMin (ms_bbox (metrics_loop load glyphCodepoints s))) \<le> sint (xMin (ms_bbox s))
 \<and> sint (yMin (ms_bbox (metrics_loop load glyphCodepoints s))) \<le> sint (yMin (ms_bbox s))
 \<and> sint (xMax (ms_bbox s)) \<le> sint (xMax (ms_bbox (metrics_loop load glyphCodepoints s)))
 \<and> sint (yMax (ms_bbox s)) \<le> sint (yMax (ms_bbox (metrics_loop load glyphCodepoints s)))"
proof (induction glyphCodepoints arbitrary: s)
  case Nil
  show ?case by simp
next
  case (Cons codepoint rest)
  from Cons [of "metrics_step load codepoint s"] metrics_step_widens [of load codepoint s]
  show ?case by simp
qed

lemma metrics_loop_ordered:
  assumes "\<exists>(translation, codepoint) \<in> set (zip (metrics_pens load glyphCodepoints s) glyphCodepoints).
             ordered_box (cbox (load translation codepoint))"
  shows "ordered_box (ms_bbox (metrics_loop load glyphCodepoints s))"
  using assms
proof (induction glyphCodepoints arbitrary: s)
  case Nil
  then show ?case by simp
next
  case (Cons codepoint rest)
  let ?s = "metrics_step load codepoint s"
  from Cons.prems consider
    (head) "ordered_box (cbox (load (ms_translation s) codepoint))"
    | (tail) "\<exists>(translation, codepoint) \<in> set (zip (metrics_pens load rest ?s) rest).
               ordered_box (cbox (load translation codepoint))"
    by auto
  then show ?case
  proof cases
    case head
    with metrics_step_contains [of load codepoint s] have "ordered_box (ms_bbox ?s)"
      by (simp add: ordered_box_def)
    with metrics_loop_widens [of load rest ?s] show ?thesis
      by (simp add: ordered_box_def)
  next
    case tail
    then show ?thesis
      by (simp add: Cons.IH)
  qed
qed

text \<open>
  C7. For a non-empty glyph sequence in which every box queried by the metrics
  pass has \<open>xMin \<le> xMax\<close> and \<open>yMin \<le> yMax\<close>, the box the pass returns has
  \<open>xMin \<le> xMax\<close> and \<open>yMin \<le> yMax\<close>. The boxes queried are those of the glyphs at
  the pen positions of the pass.
\<close>

theorem metrics_bbox_ordered:
  assumes "glyphCodepoints \<noteq> []"
    and "\<forall>(translation, codepoint)
            \<in> set (zip (metrics_pens load glyphCodepoints metrics_init) glyphCodepoints).
           ordered_box (cbox (load translation codepoint))"
  shows "sint (xMin (ms_bbox (metrics_pass load glyphCodepoints)))
           \<le> sint (xMax (ms_bbox (metrics_pass load glyphCodepoints)))
       \<and> sint (yMin (ms_bbox (metrics_pass load glyphCodepoints)))
           \<le> sint (yMax (ms_bbox (metrics_pass load glyphCodepoints)))"
proof -
  from assms(1) obtain codepoint rest where "glyphCodepoints = codepoint # rest"
    by (cases glyphCodepoints) auto
  with assms(2)
  have "\<exists>(translation, codepoint)
            \<in> set (zip (metrics_pens load glyphCodepoints metrics_init) glyphCodepoints).
           ordered_box (cbox (load translation codepoint))"
    by auto
  then have "ordered_box (ms_bbox (metrics_loop load glyphCodepoints metrics_init))"
    by (rule metrics_loop_ordered)
  then show ?thesis
    by (simp add: metrics_pass_def ordered_box_def)
qed

text \<open>
  C7 on two glyphs of the toy font.
\<close>

theorem metrics_bbox_ordered_witness:
  "sint (xMin (ms_bbox (metrics_pass toy_font [1, 2])))
     \<le> sint (xMax (ms_bbox (metrics_pass toy_font [1, 2])))
 \<and> sint (yMin (ms_bbox (metrics_pass toy_font [1, 2])))
     \<le> sint (yMax (ms_bbox (metrics_pass toy_font [1, 2])))
 \<and> ms_bbox (metrics_pass toy_font [1, 2]) = \<lparr>xMin = 0, yMin = - 64, xMax = 192, yMax = 64\<rparr>"
proof -
  have pens: "metrics_pens toy_font [1, 2] metrics_init
                = [\<lparr>vec_x = 0, vec_y = 0\<rparr>, \<lparr>vec_x = 128, vec_y = 0\<rparr>]"
    by (simp add: metrics_init_def metrics_step_def toy_font_def add_vector_def Let_def)
  have "\<forall>(translation, codepoint) \<in> set (zip (metrics_pens toy_font [1, 2] metrics_init) [1, 2]).
           ordered_box (cbox (toy_font translation codepoint))"
    unfolding pens by (simp add: toy_font_def ordered_box_def)
  with metrics_bbox_ordered [of "[1, 2]" toy_font]
  have "sint (xMin (ms_bbox (metrics_pass toy_font [1, 2])))
     \<le> sint (xMax (ms_bbox (metrics_pass toy_font [1, 2])))
 \<and> sint (yMin (ms_bbox (metrics_pass toy_font [1, 2])))
     \<le> sint (yMax (ms_bbox (metrics_pass toy_font [1, 2])))"
    by simp
  moreover have "ms_bbox (metrics_pass toy_font [1, 2])
                   = \<lparr>xMin = 0, yMin = - 64, xMax = 192, yMax = 64\<rparr>"
    by code_simp
  ultimately show ?thesis by simp
qed

section \<open>Pen positions and destinations\<close>

lemma add_vector_swap:
  "add_vector (add_vector t d) a = add_vector (add_vector t a) d"
  by (simp add: add_vector_def)

lemma metrics_step_translation:
  "ms_translation (metrics_step load codepoint s) =
     add_vector (ms_translation s) (advance (load (ms_translation s) codepoint))"
  by (simp add: metrics_step_def Let_def)

lemma render_pens_shifted:
  assumes "\<forall>t t' codepoint. advance (load t codepoint) = advance (load t' codepoint)"
  shows "map fst (render_calls load height glyphCodepoints (add_vector (ms_translation s) d)) =
           map (\<lambda>t. add_vector t d) (metrics_pens load glyphCodepoints s)"
proof (induction glyphCodepoints arbitrary: s)
  case Nil
  show ?case by simp
next
  case (Cons codepoint rest)
  let ?t = "ms_translation s"
  have "advance (load (add_vector ?t d) codepoint) = advance (load ?t codepoint)"
    using assms by blast
  then have "add_vector (add_vector ?t d) (advance (load (add_vector ?t d) codepoint)) =
               add_vector (ms_translation (metrics_step load codepoint s)) d"
    by (simp add: metrics_step_translation add_vector_swap)
  with Cons [of "metrics_step load codepoint s"] show ?case
    by (simp add: Let_def)
qed

lemma metrics_pens_sums:
  assumes "\<forall>t t' codepoint. advance (load t codepoint) = advance (load t' codepoint)"
    and "k < length glyphCodepoints"
  shows "metrics_pens load glyphCodepoints s ! k =
           foldl add_vector (ms_translation s)
             (map (\<lambda>codepoint. advance (load t0 codepoint)) (take k glyphCodepoints))"
  using assms(2)
proof (induction glyphCodepoints arbitrary: s k)
  case Nil
  then show ?case by simp
next
  case (Cons codepoint rest)
  show ?case
  proof (cases k)
    case 0
    then show ?thesis by simp
  next
    case (Suc n)
    with Cons.prems have n: "n < length rest" by simp
    have "advance (load (ms_translation s) codepoint) = advance (load t0 codepoint)"
      using assms(1) by blast
    with Cons.IH [OF n, of "metrics_step load codepoint s"] Suc show ?thesis
      by (simp add: metrics_step_translation)
  qed
qed

lemma metrics_pens_length:
  "length (metrics_pens load glyphCodepoints s) = length glyphCodepoints"
  by (induction glyphCodepoints arbitrary: s) simp_all

lemma render_calls_length:
  "length (render_calls load height glyphCodepoints translation) = length glyphCodepoints"
  by (induction glyphCodepoints arbitrary: translation) (simp_all add: Let_def)

text \<open>
  C2, as amended. When the advance of a glyph does not depend on the translation,
  the pen of the render pass at glyph \<open>k\<close> is the pen of the metrics pass at glyph
  \<open>k\<close> moved by \<open>(0, aboveOriginShift)\<close>: line 207 resets \<open>translation.y\<close> to
  \<open>aboveOriginShift\<close>, not to 0. The \<open>x\<close> coordinates agree, the metrics pen is the
  sum of the advances of the glyphs before \<open>k\<close>, and the two pens are equal when
  \<open>aboveOriginShift\<close> is 0.
\<close>

theorem render_pen_is_shifted_metrics_pen:
  assumes "\<forall>t t' codepoint. advance (load t codepoint) = advance (load t' codepoint)"
    and "k < length glyphCodepoints"
    and "shift = \<lparr>vec_x = 0, vec_y = scast (ms_aboveOriginShift (metrics_pass load glyphCodepoints))\<rparr>"
  shows "fst (render_calls load height glyphCodepoints shift ! k) =
           add_vector (metrics_pens load glyphCodepoints metrics_init ! k) shift
       \<and> vec_x (fst (render_calls load height glyphCodepoints shift ! k)) =
           vec_x (metrics_pens load glyphCodepoints metrics_init ! k)
       \<and> metrics_pens load glyphCodepoints metrics_init ! k =
           foldl add_vector \<lparr>vec_x = 0, vec_y = 0\<rparr>
             (map (\<lambda>codepoint. advance (load t0 codepoint)) (take k glyphCodepoints))
       \<and> (ms_aboveOriginShift (metrics_pass load glyphCodepoints) = 0 \<longrightarrow>
            fst (render_calls load height glyphCodepoints shift ! k) =
              metrics_pens load glyphCodepoints metrics_init ! k)"
proof -
  have z: "add_vector (ms_translation metrics_init) shift = shift"
    by (simp add: metrics_init_def add_vector_def assms(3))
  have "map fst (render_calls load height glyphCodepoints shift) =
          map (\<lambda>t. add_vector t shift) (metrics_pens load glyphCodepoints metrics_init)"
    using render_pens_shifted [OF assms(1), of height glyphCodepoints metrics_init shift]
    by (simp only: z)
  then have "map fst (render_calls load height glyphCodepoints shift) ! k =
          map (\<lambda>t. add_vector t shift) (metrics_pens load glyphCodepoints metrics_init) ! k"
    by simp
  then have a: "fst (render_calls load height glyphCodepoints shift ! k) =
           add_vector (metrics_pens load glyphCodepoints metrics_init ! k) shift"
    using assms(2) by (simp add: metrics_pens_length render_calls_length)
  have b: "metrics_pens load glyphCodepoints metrics_init ! k =
           foldl add_vector \<lparr>vec_x = 0, vec_y = 0\<rparr>
             (map (\<lambda>codepoint. advance (load t0 codepoint)) (take k glyphCodepoints))"
    using metrics_pens_sums [OF assms(1,2), of metrics_init t0]
    by (simp add: metrics_init_def)
  from a have c: "vec_x (fst (render_calls load height glyphCodepoints shift ! k)) =
           vec_x (metrics_pens load glyphCodepoints metrics_init ! k)"
    by (simp add: add_vector_def assms(3))
  have d: "fst (render_calls load height glyphCodepoints shift ! k) =
              metrics_pens load glyphCodepoints metrics_init ! k"
    if "ms_aboveOriginShift (metrics_pass load glyphCodepoints) = 0"
    using a that by (simp add: add_vector_def assms(3))
  from a b c d show ?thesis by blast
qed

text \<open>
  C2 as amended, on two glyphs of the toy font, whose \<open>aboveOriginShift\<close> is 64.
\<close>

theorem render_pen_is_shifted_metrics_pen_witness:
  "fst (render_calls toy_font 2 [1, 2]
          \<lparr>vec_x = 0, vec_y = scast (ms_aboveOriginShift (metrics_pass toy_font [1, 2]))\<rparr> ! 1) =
     add_vector (metrics_pens toy_font [1, 2] metrics_init ! 1)
       \<lparr>vec_x = 0, vec_y = scast (ms_aboveOriginShift (metrics_pass toy_font [1, 2]))\<rparr>
 \<and> metrics_pens toy_font [1, 2] metrics_init ! 1 = \<lparr>vec_x = 128, vec_y = 0\<rparr>
 \<and> ms_aboveOriginShift (metrics_pass toy_font [1, 2]) = 64"
proof -
  have adv: "\<forall>t t' codepoint. advance (toy_font t codepoint) = advance (toy_font t' codepoint)"
    by (simp add: toy_font_def)
  have k: "1 < length [1::hb_codepoint_t, 2]"
    by simp
  from render_pen_is_shifted_metrics_pen [OF adv k refl, of 2]
  have "fst (render_calls toy_font 2 [1, 2]
          \<lparr>vec_x = 0, vec_y = scast (ms_aboveOriginShift (metrics_pass toy_font [1, 2]))\<rparr> ! 1) =
     add_vector (metrics_pens toy_font [1, 2] metrics_init ! 1)
       \<lparr>vec_x = 0, vec_y = scast (ms_aboveOriginShift (metrics_pass toy_font [1, 2]))\<rparr>"
    by blast
  moreover have "metrics_pens toy_font [1, 2] metrics_init ! 1 = \<lparr>vec_x = 128, vec_y = 0\<rparr>"
    by code_simp
  moreover have "ms_aboveOriginShift (metrics_pass toy_font [1, 2]) = 64"
    by code_simp
  ultimately show ?thesis by blast
qed

text \<open>
  C2 as stated fails on one glyph of the toy font, which reaches one pixel below
  the baseline: the metrics pass loads it at \<open>(0, 0)\<close>, the render pass at
  \<open>(0, 64)\<close>.
\<close>

theorem render_pen_differs_counterexample:
  "fst (render_calls toy_font (canvas_height (ms_bbox (metrics_pass toy_font [1]))) [1]
          \<lparr>vec_x = 0, vec_y = scast (ms_aboveOriginShift (metrics_pass toy_font [1]))\<rparr> ! 0)
     \<noteq> metrics_pens toy_font [1] metrics_init ! 0
 \<and> (\<forall>t t' codepoint. advance (toy_font t codepoint) = advance (toy_font t' codepoint))
 \<and> metrics_pens toy_font [1] metrics_init ! 0 = \<lparr>vec_x = 0, vec_y = 0\<rparr>
 \<and> fst (render_calls toy_font (canvas_height (ms_bbox (metrics_pass toy_font [1]))) [1]
          \<lparr>vec_x = 0, vec_y = scast (ms_aboveOriginShift (metrics_pass toy_font [1]))\<rparr> ! 0)
     = \<lparr>vec_x = 0, vec_y = 64\<rparr>"
proof (intro conjI)
  show "fst (render_calls toy_font (canvas_height (ms_bbox (metrics_pass toy_font [1]))) [1]
          \<lparr>vec_x = 0, vec_y = scast (ms_aboveOriginShift (metrics_pass toy_font [1]))\<rparr> ! 0)
     \<noteq> metrics_pens toy_font [1] metrics_init ! 0"
    by code_simp
  show "\<forall>t t' codepoint. advance (toy_font t codepoint) = advance (toy_font t' codepoint)"
    by (simp add: toy_font_def)
  show "metrics_pens toy_font [1] metrics_init ! 0 = \<lparr>vec_x = 0, vec_y = 0\<rparr>"
    by code_simp
  show "fst (render_calls toy_font (canvas_height (ms_bbox (metrics_pass toy_font [1]))) [1]
          \<lparr>vec_x = 0, vec_y = scast (ms_aboveOriginShift (metrics_pass toy_font [1]))\<rparr> ! 0)
     = \<lparr>vec_x = 0, vec_y = 64\<rparr>"
    by code_simp
qed

lemma render_calls_nth:
  assumes "k < length glyphCodepoints"
  shows "\<exists>t. render_calls load height glyphCodepoints translation ! k =
           (t, bitmap (load t (glyphCodepoints ! k)), bitmap_left (load t (glyphCodepoints ! k)),
            height - bitmap_top (load t (glyphCodepoints ! k)))"
  using assms
proof (induction glyphCodepoints arbitrary: k translation)
  case Nil
  then show ?case by simp
next
  case (Cons codepoint rest)
  show ?case
  proof (cases k)
    case 0
    then show ?thesis by (simp add: Let_def)
  next
    case (Suc n)
    with Cons.prems have "n < length rest" by simp
    from Cons.IH [OF this] Suc show ?thesis
      by (simp add: Let_def)
  qed
qed

lemma DrawGlyph_rows_writes_complete:
  assumes "sint j \<le> sint j'" and "sint j' < sint yMax'"
    and "0 \<le> sint i" and "sint i < sint width" and "0 \<le> sint j'" and "sint j' < sint height"
  shows "(i, j', p, q + (j' - j)) \<in> set (DrawGlyph_rows_writes width height yMax' i p j q)"
  using assms
proof (induction width height yMax' i p j q rule: DrawGlyph_rows_writes.induct)
  case (1 width height yMax' i p j q)
  note b = "1.prems"(2-6)
  have lt: "j <s yMax'"
    using "1.prems"(1,2) by (simp add: word_sless_alt)
  have succ: "sint (j + 1) = sint j + 1"
    by (rule sint_succ_sless [OF lt])
  show ?case
  proof (cases "j = j'")
    case True
    with "1.prems"(3-6) have "\<not> (i <s 0 \<or> j <s 0 \<or> width \<le>s i \<or> height \<le>s j)"
      by (simp add: word_sless_alt word_sle_eq)
    with lt True show ?thesis
      by (subst DrawGlyph_rows_writes.simps) simp
  next
    case False
    then have "sint j \<noteq> sint j'"
      using signed_word_eqI [of j j'] by blast
    with "1.prems"(1) succ have le: "sint (j + 1) \<le> sint j'"
      by simp
    have e: "q + 1 + (j' - (j + 1)) = q + (j' - j)"
      by simp
    show ?thesis
    proof (cases "i <s 0 \<or> j <s 0 \<or> width \<le>s i \<or> height \<le>s j")
      case True
      from "1.IH"(1) [OF lt True le b] lt True show ?thesis
        by (subst DrawGlyph_rows_writes.simps) (simp add: e)
    next
      case False
      from "1.IH"(2) [OF lt False le b] lt False show ?thesis
        by (subst DrawGlyph_rows_writes.simps) (simp add: e)
    qed
  qed
qed

lemma DrawGlyph_cols_writes_complete:
  assumes "sint i \<le> sint i'" and "sint i' < sint xMax'"
    and "sint y \<le> sint j'" and "sint j' < sint yMax'"
    and "0 \<le> sint i'" and "sint i' < sint width" and "0 \<le> sint j'" and "sint j' < sint height"
  shows "(i', j', p + (i' - i), j' - y) \<in> set (DrawGlyph_cols_writes width height y xMax' yMax' i p)"
  using assms
proof (induction width height y xMax' yMax' i p rule: DrawGlyph_cols_writes.induct)
  case (1 width height y xMax' yMax' i p)
  note b = "1.prems"(2-8)
  have lt: "i <s xMax'"
    using "1.prems"(1,2) by (simp add: word_sless_alt)
  have succ: "sint (i + 1) = sint i + 1"
    by (rule sint_succ_sless [OF lt])
  show ?case
  proof (cases "i = i'")
    case True
    from DrawGlyph_rows_writes_complete [OF "1.prems"(3,4) "1.prems"(5-8), of p 0] True
    have "(i', j', p + (i' - i), j' - y) \<in> set (DrawGlyph_rows_writes width height yMax' i p y 0)"
      by simp
    with lt show ?thesis
      by (subst DrawGlyph_cols_writes.simps) simp
  next
    case False
    then have "sint i \<noteq> sint i'"
      using signed_word_eqI [of i i'] by blast
    with "1.prems"(1) succ have le: "sint (i + 1) \<le> sint i'"
      by simp
    have e: "p + 1 + (i' - (i + 1)) = p + (i' - i)"
      by simp
    from "1.IH" [OF lt le b] lt show ?thesis
      by (subst DrawGlyph_cols_writes.simps) (simp add: e)
  qed
qed

lemma DrawGlyph_writes_complete:
  assumes "sint x \<le> sint i" and "sint i < sint (x + bm_width glyphBitmap)"
    and "sint y \<le> sint j" and "sint j < sint (y + bm_rows glyphBitmap)"
    and "0 \<le> sint i" "sint i < sint width" "0 \<le> sint j" "sint j < sint height"
  shows "(i, j, i - x, j - y) \<in> set (DrawGlyph_writes width height glyphBitmap x y)"
  using DrawGlyph_cols_writes_complete [OF assms, of 0]
  by (simp add: DrawGlyph_writes_def)

text \<open>The byte at one index after a list of writes that all bring it the same value.\<close>

lemma or_assign_all_value:
  assumes "or_assign_all img width glyphBitmap ws = Inr img'" and "k < length img"
    and "\<And>i j p q. (i, j, p, q) \<in> set ws \<Longrightarrow> dst_index width i j = int k \<Longrightarrow>
           bm_buffer glyphBitmap ! src_index glyphBitmap p q = v"
    and "\<exists>(i, j, p, q) \<in> set ws. dst_index width i j = int k"
  shows "img' ! k = img ! k OR v"
  using assms
proof (induction ws arbitrary: img)
  case Nil
  then show ?case by simp
next
  case (Cons w ws)
  obtain i j p q where w: "w = (i, j, p, q)" by (cases w) auto
  from Cons.prems(1) obtain img1 where
    s: "or_assign img width glyphBitmap i j p q = Inr img1"
    and r: "or_assign_all img1 width glyphBitmap ws = Inr img'"
    by (auto simp: w split: sum.splits)
  have k1: "k < length img1"
    using or_assign_length [OF s] Cons.prems(2) by simp
  have same: "\<And>i j p q. (i, j, p, q) \<in> set ws \<Longrightarrow> dst_index width i j = int k \<Longrightarrow>
           bm_buffer glyphBitmap ! src_index glyphBitmap p q = v"
    using Cons.prems(3) by auto
  have tail: "img' ! k = (if \<exists>(i, j, p, q) \<in> set ws. dst_index width i j = int k
                          then img1 ! k OR v else img1 ! k)"
  proof (cases "\<exists>(i, j, p, q) \<in> set ws. dst_index width i j = int k")
    case True
    from Cons.IH [OF r k1 same True] True show ?thesis by simp
  next
    case False
    then have "img' ! k = img1 ! k"
      by (intro or_assign_all_frame [OF r k1]) auto
    with False show ?thesis by simp
  qed
  show ?case
  proof (cases "dst_index width i j = int k")
    case True
    have "bm_buffer glyphBitmap ! src_index glyphBitmap p q = v"
      using Cons.prems(3) [of i j p q] True by (simp add: w)
    with or_assign_nth [OF s Cons.prems(2)] True have "img1 ! k = img ! k OR v"
      by simp
    with tail show ?thesis
      by (simp add: or.assoc)
  next
    case False
    with or_assign_nth [OF s Cons.prems(2)] have h: "img1 ! k = img ! k"
      by simp
    from False Cons.prems(4) have "\<exists>(i, j, p, q) \<in> set ws. dst_index width i j = int k"
      by (auto simp: w)
    with tail h show ?thesis by simp
  qed
qed

lemma sint_add_unsigned_fits:
  fixes a w :: "'a::len word"
  assumes "sint a + uint w < 2 ^ (LENGTH('a) - 1)"
  shows "sint (a + w) = sint a + uint w"
proof -
  have "- (2 ^ (LENGTH('a) - 1)) \<le> sint a + uint w"
    using sint_ge [of a] uint_ge_0 [of w] by linarith
  moreover have "a + w = word_of_int (sint a + uint w)"
    by simp
  ultimately show ?thesis
    using assms sint_word_of_int_self [of "sint a + uint w", where 'a = 'a] by simp
qed

lemma src_index_nat:
  "src_index glyphBitmap p q = (unat q * unat (bm_width glyphBitmap) + unat p) mod 2 ^ 32"
  by (simp add: src_index_def unat_word_ariths(1) unat_word_ariths(2) mod_add_left_eq)

lemma DrawGlyph_pixel:
  assumes "canvas img width height" and "DrawGlyph img width height glyphBitmap x y = Inr img'"
    and "0 \<le> sint x + int p" and "sint x + int p < sint width"
    and "0 \<le> sint y + int q" and "sint y + int q < sint height"
    and "sint x + int p < sint (x + bm_width glyphBitmap)"
    and "sint y + int q < sint (y + bm_rows glyphBitmap)"
  shows "pixel img' width (sint x + int p) (sint y + int q) =
           pixel img width (sint x + int p) (sint y + int q)
             OR bm_buffer glyphBitmap ! ((q * unat (bm_width glyphBitmap) + p) mod 2 ^ 32)"
proof -
  let ?i = "sint x + int p" and ?j = "sint y + int q"
  let ?k = "nat (?j * sint width + ?i)"
  let ?v = "bm_buffer glyphBitmap ! ((q * unat (bm_width glyphBitmap) + p) mod 2 ^ 32)"
  define iw :: FT_Int where "iw = word_of_int ?i"
  define jw :: FT_Int where "jw = word_of_int ?j"
  have top: "sint width < 2147483648" "sint height < 2147483648"
    using sint_lt [of width] sint_lt [of height] by simp_all
  have si: "sint iw = ?i"
    unfolding iw_def using assms(3,4) top by (intro sint_word_of_int_self) simp_all
  have sj: "sint jw = ?j"
    unfolding jw_def using assms(5,6) top by (intro sint_word_of_int_self) simp_all
  have mem: "(iw, jw, iw - x, jw - y) \<in> set (DrawGlyph_writes width height glyphBitmap x y)"
    using assms(3-8) by (intro DrawGlyph_writes_complete) (simp_all add: si sj)
  have b: "0 \<le> ?j * sint width + ?i \<and> ?j * sint width + ?i < sint width * sint height"
    using assms(3-6) by (rule row_major_bound)
  with assms(1) have k: "?k < length img"
    by (simp add: canvas_def nat_less_iff)
  have dst: "sint i' = ?i \<and> sint j' = ?j"
    if w: "(i', j', p', q') \<in> set (DrawGlyph_writes width height glyphBitmap x y)"
      and e: "dst_index width i' j' = int ?k"
    for i' j' p' q'
  proof -
    note c = DrawGlyph_writes_covered [OF w]
    have "dst_index width i' j' = sint j' * sint width + sint i'"
      by (rule dst_index_canvas(1) [OF assms(1) c(4-7)])
    with e b have "sint j' * sint width + sint i' = ?j * sint width + ?i"
      by simp
    with c(4,5) assms(3,4) show ?thesis
      by (intro row_major_inj [of _ "sint width"]) simp_all
  qed
  have "img' ! ?k = img ! ?k OR ?v"
  proof (rule or_assign_all_value [OF assms(2) [unfolded DrawGlyph_eq] k])
    fix i' j' p' q'
    assume w: "(i', j', p', q') \<in> set (DrawGlyph_writes width height glyphBitmap x y)"
      and e: "dst_index width i' j' = int ?k"
    note c = DrawGlyph_writes_covered [OF w]
    from dst [OF w e] c(2,3) have "uint p' = int p" "uint q' = int q"
      by simp_all
    then have "unat p' = p" "unat q' = q"
      by (simp_all only: unat_eq_nat_uint nat_int)
    then show "bm_buffer glyphBitmap ! src_index glyphBitmap p' q' = ?v"
      by (simp only: src_index_nat)
  next
    have "dst_index width iw jw = sint jw * sint width + sint iw"
      using assms(3-6) by (intro dst_index_canvas(1) [OF assms(1)]) (simp_all add: si sj)
    with b have "dst_index width iw jw = int ?k"
      by (simp add: si sj)
    with mem show "\<exists>(i, j, p, q) \<in> set (DrawGlyph_writes width height glyphBitmap x y).
                     dst_index width i j = int ?k"
      by blast
  qed
  then show ?thesis
    by (simp add: pixel_def)
qed

lemma DrawGlyph_calls_append:
  "DrawGlyph_calls img width height (calls @ calls') =
     (case DrawGlyph_calls img width height calls of
        Inl e \<Rightarrow> Inl e
      | Inr img' \<Rightarrow> DrawGlyph_calls img' width height calls')"
  by (induction calls arbitrary: img) (auto split: sum.splits)

lemma DrawGlyph_calls_absorbs:
  assumes "DrawGlyph_calls img width height calls = Inr img'"
  shows "length img' = length img \<and> (\<forall>k < length img. img ! k OR img' ! k = img' ! k)"
  using assms
proof (induction calls arbitrary: img)
  case Nil
  then show ?case by simp
next
  case (Cons c calls)
  obtain translation glyphBitmap x y where c: "c = (translation, glyphBitmap, x, y)"
    by (cases c) auto
  from Cons.prems obtain img1 where
    d: "DrawGlyph img width height glyphBitmap x y = Inr img1"
    and r: "DrawGlyph_calls img1 width height calls = Inr img'"
    by (auto simp: c split: sum.splits)
  note l1 = or_assign_all_length [OF d [unfolded DrawGlyph_eq]]
  note ih = Cons.IH [OF r]
  have "img ! k OR img' ! k = img' ! k" if k: "k < length img" for k
  proof -
    have a: "img ! k OR img1 ! k = img1 ! k"
      by (rule or_assign_all_absorbs_old [OF d [unfolded DrawGlyph_eq] k])
    have b: "img1 ! k OR img' ! k = img' ! k"
      using ih k l1 by simp
    have "img ! k OR img' ! k = img ! k OR (img1 ! k OR img' ! k)"
      by (simp only: b)
    also have "\<dots> = (img ! k OR img1 ! k) OR img' ! k"
      by (simp only: or.assoc)
    also have "\<dots> = img' ! k"
      by (simp only: a b)
    finally show ?thesis .
  qed
  with ih l1 show ?case by simp
qed

text \<open>
  C6. In the render pass the call for glyph \<open>k\<close> draws the bitmap of the slot loaded
  at the pen of that iteration at \<open>x = bitmap_left\<close>, \<open>y = height - bitmap_top\<close>,
  the subtraction being that of \<open>FT_Int\<close>. On a canvas, with well-formed bitmaps,
  the calls before it, the call itself and the whole loop return an image, and the
  call composites the source pixel of column \<open>p\<close>, row \<open>q\<close> at column \<open>x + p\<close>, row
  \<open>y + q\<close>: wherever that pixel lies on the canvas and before the ends that lines
  23 and 24 compute, its value after the call is its value before \<open>OR\<close> the byte
  \<open>buffer[q * width + p]\<close> (the index in \<open>unsigned int\<close>), and the final image still
  holds those bits. With \<open>p = q = 0\<close> the top-left pixel of the bitmap lands at
  \<open>(bitmap_left, height - bitmap_top)\<close>. The ends are \<open>x + width\<close> and \<open>y + rows\<close>
  whenever these fit \<open>FT_Int\<close>.
\<close>

theorem render_destination:
  assumes "canvas img width height"
    and "\<forall>translation codepoint. glyph_bitmap (bitmap (load translation codepoint))"
    and "k < length glyphCodepoints"
    and "render_calls load height glyphCodepoints translation ! k = (t, glyphBitmap, x, y)"
  shows "glyphBitmap = bitmap (load t (glyphCodepoints ! k))
       \<and> x = bitmap_left (load t (glyphCodepoints ! k))
       \<and> y = height - bitmap_top (load t (glyphCodepoints ! k))
       \<and> (\<exists>before after final translation'.
             DrawGlyph_calls img width height
               (take k (render_calls load height glyphCodepoints translation)) = Inr before
           \<and> DrawGlyph before width height glyphBitmap x y = Inr after
           \<and> DrawGlyph_calls img width height
               (take (Suc k) (render_calls load height glyphCodepoints translation)) = Inr after
           \<and> render_loop load width height glyphCodepoints img translation
               = Inr (final, translation')
           \<and> (\<forall>p q. 0 \<le> sint x + int p \<and> sint x + int p < sint width
                    \<and> 0 \<le> sint y + int q \<and> sint y + int q < sint height
                    \<and> sint x + int p < sint (x + bm_width glyphBitmap)
                    \<and> sint y + int q < sint (y + bm_rows glyphBitmap) \<longrightarrow>
                  pixel after width (sint x + int p) (sint y + int q) =
                    pixel before width (sint x + int p) (sint y + int q)
                      OR bm_buffer glyphBitmap ! ((q * unat (bm_width glyphBitmap) + p) mod 2 ^ 32)
                \<and> pixel final width (sint x + int p) (sint y + int q)
                      OR bm_buffer glyphBitmap ! ((q * unat (bm_width glyphBitmap) + p) mod 2 ^ 32)
                    = pixel final width (sint x + int p) (sint y + int q)))
       \<and> (sint x + uint (bm_width glyphBitmap) \<le> 2147483647 \<longrightarrow>
            sint (x + bm_width glyphBitmap) = sint x + uint (bm_width glyphBitmap))
       \<and> (sint y + uint (bm_rows glyphBitmap) \<le> 2147483647 \<longrightarrow>
            sint (y + bm_rows glyphBitmap) = sint y + uint (bm_rows glyphBitmap))"
proof -
  let ?calls = "render_calls load height glyphCodepoints translation"
  have len: "k < length ?calls"
    using assms(3) by (simp add: render_calls_length)
  have wf: "glyph_bitmap b" if "(t', b, x', y') \<in> set ?calls" for t' b x' y'
    using render_calls_bitmap [OF that] assms(2) by auto
  from render_calls_nth [OF assms(3), of load height translation] assms(4)
  have args: "glyphBitmap = bitmap (load t (glyphCodepoints ! k))"
    "x = bitmap_left (load t (glyphCodepoints ! k))"
    "y = height - bitmap_top (load t (glyphCodepoints ! k))"
    by auto
  have split: "?calls = take k ?calls @ (t, glyphBitmap, x, y) # drop (Suc k) ?calls"
    using id_take_nth_drop [OF len] assms(4) by simp
  have tk: "take (Suc k) ?calls = take k ?calls @ [(t, glyphBitmap, x, y)]"
    using take_Suc_conv_app_nth [OF len] assms(4) by simp
  have "\<exists>img'. DrawGlyph_calls img width height (take k ?calls) = Inr img'
           \<and> canvas img' width height
           \<and> (\<forall>i j. 0 \<le> i \<and> i < sint width \<and> 0 \<le> j \<and> j < sint height \<longrightarrow>
                  pixel img width i j \<le> pixel img' width i j
                \<and> ((\<forall>(translation, glyphBitmap, x, y) \<in> set (take k ?calls).
                       \<not> covered glyphBitmap x y i j) \<longrightarrow>
                     pixel img' width i j = pixel img width i j))"
  proof (rule DrawGlyph_calls_safe [OF assms(1)])
    fix t' b x' y'
    assume "(t', b, x', y') \<in> set (take k ?calls)"
    then have "(t', b, x', y') \<in> set ?calls"
      by (rule in_set_takeD)
    then show "glyph_bitmap b" by (rule wf)
  qed
  then obtain before where
    before: "DrawGlyph_calls img width height (take k ?calls) = Inr before"
    and cb: "canvas before width height"
    by blast
  have gb: "glyph_bitmap glyphBitmap"
    using assms(2) args(1) by simp
  obtain after where after: "DrawGlyph before width height glyphBitmap x y = Inr after"
    using DrawGlyph_succeeds [OF cb gb] by blast
  have ca: "canvas after width height"
    by (rule DrawGlyph_canvas [OF cb after])
  have after': "DrawGlyph_calls img width height (take (Suc k) ?calls) = Inr after"
    by (simp add: tk DrawGlyph_calls_append before after)
  have "\<exists>img'. DrawGlyph_calls after width height (drop (Suc k) ?calls) = Inr img'
           \<and> canvas img' width height
           \<and> (\<forall>i j. 0 \<le> i \<and> i < sint width \<and> 0 \<le> j \<and> j < sint height \<longrightarrow>
                  pixel after width i j \<le> pixel img' width i j
                \<and> ((\<forall>(translation, glyphBitmap, x, y) \<in> set (drop (Suc k) ?calls).
                       \<not> covered glyphBitmap x y i j) \<longrightarrow>
                     pixel img' width i j = pixel after width i j))"
  proof (rule DrawGlyph_calls_safe [OF ca])
    fix t' b x' y'
    assume "(t', b, x', y') \<in> set (drop (Suc k) ?calls)"
    then have "(t', b, x', y') \<in> set ?calls"
      by (rule in_set_dropD)
    then show "glyph_bitmap b" by (rule wf)
  qed
  then obtain final where
    rest: "DrawGlyph_calls after width height (drop (Suc k) ?calls) = Inr final"
    by blast
  have "DrawGlyph_calls img width height
          (take k ?calls @ (t, glyphBitmap, x, y) # drop (Suc k) ?calls) = Inr final"
    by (simp add: DrawGlyph_calls_append before after rest)
  then have "DrawGlyph_calls img width height ?calls = Inr final"
    using split by simp
  then have "map_sum id fst (render_loop load width height glyphCodepoints img translation)
               = Inr final"
    by (simp only: render_loop_calls)
  then obtain translation' where
    loop: "render_loop load width height glyphCodepoints img translation
             = Inr (final, translation')"
    by (cases "render_loop load width height glyphCodepoints img translation") auto
  note ab = DrawGlyph_calls_absorbs [OF rest]
  have px: "pixel after width (sint x + int p) (sint y + int q) =
                    pixel before width (sint x + int p) (sint y + int q)
                      OR bm_buffer glyphBitmap ! ((q * unat (bm_width glyphBitmap) + p) mod 2 ^ 32)
                \<and> pixel final width (sint x + int p) (sint y + int q)
                      OR bm_buffer glyphBitmap ! ((q * unat (bm_width glyphBitmap) + p) mod 2 ^ 32)
                    = pixel final width (sint x + int p) (sint y + int q)"
    if h: "0 \<le> sint x + int p" "sint x + int p < sint width"
      "0 \<le> sint y + int q" "sint y + int q < sint height"
      "sint x + int p < sint (x + bm_width glyphBitmap)"
      "sint y + int q < sint (y + bm_rows glyphBitmap)" for p q
  proof -
    let ?i = "sint x + int p" and ?j = "sint y + int q"
    let ?v = "bm_buffer glyphBitmap ! ((q * unat (bm_width glyphBitmap) + p) mod 2 ^ 32)"
    have a: "pixel after width ?i ?j = pixel before width ?i ?j OR ?v"
      by (rule DrawGlyph_pixel [OF cb after h])
    have b: "0 \<le> ?j * sint width + ?i \<and> ?j * sint width + ?i < sint width * sint height"
      using h(1-4) by (rule row_major_bound)
    with ca have "nat (?j * sint width + ?i) < length after"
      by (simp add: canvas_def nat_less_iff)
    with ab have c: "pixel after width ?i ?j OR pixel final width ?i ?j = pixel final width ?i ?j"
      by (simp add: pixel_def)
    from a have d: "pixel after width ?i ?j OR ?v = pixel after width ?i ?j"
      by (simp add: or.assoc)
    have "pixel final width ?i ?j OR ?v = (pixel after width ?i ?j OR pixel final width ?i ?j) OR ?v"
      by (simp only: c)
    also have "\<dots> = (pixel after width ?i ?j OR ?v) OR pixel final width ?i ?j"
      by (simp only: or.assoc or.commute or.left_commute)
    also have "\<dots> = pixel final width ?i ?j"
      by (simp only: d c)
    finally show ?thesis
      using a by simp
  qed
  have nx: "sint (x + bm_width glyphBitmap) = sint x + uint (bm_width glyphBitmap)"
    if "sint x + uint (bm_width glyphBitmap) \<le> 2147483647"
    using that by (intro sint_add_unsigned_fits) simp
  have ny: "sint (y + bm_rows glyphBitmap) = sint y + uint (bm_rows glyphBitmap)"
    if "sint y + uint (bm_rows glyphBitmap) \<le> 2147483647"
    using that by (intro sint_add_unsigned_fits) simp
  from args before after after' loop px nx ny show ?thesis
    by blast
qed

text \<open>
  C6 on the second of two glyphs of the toy font, on a canvas three pixels wide and
  two high: the bitmap is drawn at \<open>(2, 0)\<close>, and its two pixels 255 and 128 are in
  the final image at \<open>(2, 0)\<close> and \<open>(2, 1)\<close>.
\<close>

theorem render_destination_witness:
  "canvas [0, 0, 0, 0, 0, 0] 3 2
 \<and> (\<forall>translation codepoint. glyph_bitmap (bitmap (toy_font translation codepoint)))
 \<and> render_calls toy_font 2 [1, 2] \<lparr>vec_x = 0, vec_y = 64\<rparr> ! 1 =
     (\<lparr>vec_x = 128, vec_y = 64\<rparr>, \<lparr>bm_rows = 2, bm_width = 1, bm_buffer = [255, 128]\<rparr>, 2, 0)
 \<and> bitmap_left (toy_font \<lparr>vec_x = 128, vec_y = 64\<rparr> 2) = 2
 \<and> 2 - bitmap_top (toy_font \<lparr>vec_x = 128, vec_y = 64\<rparr> 2) = 0
 \<and> (\<exists>final translation'.
        render_loop toy_font 3 2 [1, 2] [0, 0, 0, 0, 0, 0] \<lparr>vec_x = 0, vec_y = 64\<rparr>
          = Inr (final, translation')
      \<and> pixel final 3 2 0 OR 255 = pixel final 3 2 0
      \<and> pixel final 3 2 1 OR 128 = pixel final 3 2 1)
 \<and> render_loop toy_font 3 2 [1, 2] [0, 0, 0, 0, 0, 0] \<lparr>vec_x = 0, vec_y = 64\<rparr>
     = Inr ([255, 0, 255, 128, 0, 128], \<lparr>vec_x = 256, vec_y = 64\<rparr>)"
proof -
  let ?bm = "\<lparr>bm_rows = 2, bm_width = 1, bm_buffer = [255, 128]\<rparr>"
  have c: "canvas [0, 0, 0, 0, 0, 0] 3 2"
    by (simp add: canvas_def)
  have f: "\<forall>translation codepoint. glyph_bitmap (bitmap (toy_font translation codepoint))"
    by (simp add: glyph_bitmap_def toy_font_def)
  have k: "1 < length [1 :: hb_codepoint_t, 2]"
    by simp
  have call: "render_calls toy_font 2 [1, 2] \<lparr>vec_x = 0, vec_y = 64\<rparr> ! 1 =
     (\<lparr>vec_x = 128, vec_y = 64\<rparr>, ?bm, 2, 0)"
    by code_simp
  have args: "bitmap_left (toy_font \<lparr>vec_x = 128, vec_y = 64\<rparr> 2) = 2"
    "2 - bitmap_top (toy_font \<lparr>vec_x = 128, vec_y = 64\<rparr> 2) = 0"
    by code_simp+
  have run: "render_loop toy_font 3 2 [1, 2] [0, 0, 0, 0, 0, 0] \<lparr>vec_x = 0, vec_y = 64\<rparr>
     = Inr ([255, 0, 255, 128, 0, 128], \<lparr>vec_x = 256, vec_y = 64\<rparr>)"
    by code_simp
  from render_destination [OF c f k call]
  obtain final translation' where
    loop: "render_loop toy_font 3 2 [1, 2] [0, 0, 0, 0, 0, 0] \<lparr>vec_x = 0, vec_y = 64\<rparr>
          = Inr (final, translation')"
    and px: "\<forall>p q. 0 \<le> sint (2 :: FT_Int) + int p \<and> sint (2 :: FT_Int) + int p < sint (3 :: FT_Int)
                    \<and> 0 \<le> sint (0 :: FT_Int) + int q \<and> sint (0 :: FT_Int) + int q < sint (2 :: FT_Int)
                    \<and> sint (2 :: FT_Int) + int p < sint (2 + bm_width ?bm)
                    \<and> sint (0 :: FT_Int) + int q < sint (0 + bm_rows ?bm) \<longrightarrow>
                  pixel final 3 (sint (2 :: FT_Int) + int p) (sint (0 :: FT_Int) + int q)
                      OR bm_buffer ?bm ! ((q * unat (bm_width ?bm) + p) mod 2 ^ 32)
                    = pixel final 3 (sint (2 :: FT_Int) + int p) (sint (0 :: FT_Int) + int q)"
    by blast
  from px [rule_format, of 0 0] have "pixel final 3 2 0 OR 255 = pixel final 3 2 0"
    by simp
  moreover from px [rule_format, of 0 1] have "pixel final 3 2 1 OR 128 = pixel final 3 2 1"
    by simp
  ultimately show ?thesis
    using c f call args loop run by blast
qed

section \<open>The empty run, ICU errors and buffer sizes\<close>

lemma metrics_pass_empty:
  "metrics_pass load [] = metrics_init"
  by (simp add: metrics_pass_def)

lemma sentinel_canvas_size:
  "sint (canvas_width (ms_bbox metrics_init)) = - 67108863"
  "sint (canvas_height (ms_bbox metrics_init)) = - 67108863"
  by (simp_all add: metrics_init_def canvas_width_def canvas_height_def INT_MAX_def INT_MIN_def
        sdiv_word_def signed_divide_int_def)

lemma FreeType_rendering_empty:
  "FreeType_rendering load [] =
     (case new_image (canvas_width (ms_bbox (metrics_pass load [])))
             (canvas_height (ms_bbox (metrics_pass load []))) of
        Inl e \<Rightarrow> Uncaught e
      | Inr img \<Rightarrow>
          Printed (canvas_width (ms_bbox (metrics_pass load [])))
            (canvas_height (ms_bbox (metrics_pass load []))) img)"
  by (simp add: FreeType_rendering_def Let_def split: sum.splits)

text \<open>
  C4, as amended. For the empty glyph sequence nothing is detected. The box keeps
  the sentinels of lines 173 and 174; lines 200 and 201 compute a width and a
  height from it, both \<open>- 67108863\<close> with a 64-bit \<open>FT_Pos\<close>; and the program goes
  on to the allocation of line 203 with these dimensions: its outcome is that of
  the new-expression, an uncaught exception or the printing of what was
  allocated, never a report of an empty run. So it is for \<open>main\<close> whenever the
  shaper returns no glyph.
\<close>

theorem empty_run_reaches_allocation:
  "ms_bbox (metrics_pass load []) =
     \<lparr>xMin = 2147483647, yMin = 2147483647, xMax = - 2147483648, yMax = - 2147483648\<rparr>
 \<and> sint (canvas_width (ms_bbox (metrics_pass load []))) = - 67108863
 \<and> sint (canvas_height (ms_bbox (metrics_pass load []))) = - 67108863
 \<and> FreeType_rendering load [] =
     (case new_image (canvas_width (ms_bbox (metrics_pass load [])))
             (canvas_height (ms_bbox (metrics_pass load []))) of
        Inl e \<Rightarrow> Uncaught e
      | Inr img \<Rightarrow>
          Printed (canvas_width (ms_bbox (metrics_pass load [])))
            (canvas_height (ms_bbox (metrics_pass load []))) img)
 \<and> (argc env = 2 \<and> FT_Init_FreeType env \<and> FT_New_Face env
      \<and> hb_shape env (fst (ICU_reordering env)) = [] \<longrightarrow>
      main env = FreeType_rendering (FT_Load_Glyph env) [])"
proof -
  have b: "ms_bbox (metrics_pass load []) =
     \<lparr>xMin = 2147483647, yMin = 2147483647, xMax = - 2147483648, yMax = - 2147483648\<rparr>"
    by (simp add: metrics_pass_empty metrics_init_def INT_MAX_def INT_MIN_def)
  have "main env = FreeType_rendering (FT_Load_Glyph env) []"
    if "argc env = 2" "FT_Init_FreeType env" "FT_New_Face env"
      "hb_shape env (fst (ICU_reordering env)) = []"
    using that by (simp add: main_def Let_def case_prod_beta)
  moreover have "sint (canvas_width (ms_bbox (metrics_pass load []))) = - 67108863"
    and "sint (canvas_height (ms_bbox (metrics_pass load []))) = - 67108863"
    by (simp_all only: metrics_pass_empty sentinel_canvas_size)
  ultimately show ?thesis
    using b FreeType_rendering_empty [of load] by blast
qed

text \<open>
  C4 as amended, for the empty text.
\<close>

theorem empty_run_reaches_allocation_witness:
  "argc (toy_environment []) = 2 \<and> FT_Init_FreeType (toy_environment [])
 \<and> FT_New_Face (toy_environment [])
 \<and> hb_shape (toy_environment []) (fst (ICU_reordering (toy_environment []))) = []
 \<and> main (toy_environment []) = FreeType_rendering toy_font []"
proof -
  have "argc (toy_environment []) = 2 \<and> FT_Init_FreeType (toy_environment [])
      \<and> FT_New_Face (toy_environment [])"
    by (simp add: toy_environment_def)
  moreover have "FT_Load_Glyph (toy_environment []) = toy_font"
    by (simp add: toy_environment_def)
  moreover have "hb_shape (toy_environment []) (fst (ICU_reordering (toy_environment []))) = []"
    by code_simp
  ultimately show ?thesis
    using empty_run_reaches_allocation [of toy_font "toy_environment []"] by simp
qed

text \<open>
  C4 as stated fails: on the empty sequence the program sizes the canvas, to a
  negative width and a negative height, and attempts the allocation of line 203
  with them; no check of the box comes first.
\<close>

theorem empty_run_negative_allocation_counterexample:
  "metrics_pass toy_font [] = metrics_init
 \<and> sint (canvas_width (ms_bbox (metrics_pass toy_font []))) < 0
 \<and> sint (canvas_height (ms_bbox (metrics_pass toy_font []))) < 0
 \<and> FreeType_rendering toy_font [] =
     (case new_image (canvas_width (ms_bbox (metrics_pass toy_font [])))
             (canvas_height (ms_bbox (metrics_pass toy_font []))) of
        Inl e \<Rightarrow> Uncaught e
      | Inr img \<Rightarrow>
          Printed (canvas_width (ms_bbox (metrics_pass toy_font [])))
            (canvas_height (ms_bbox (metrics_pass toy_font []))) img)"
proof -
  have "sint (canvas_width (ms_bbox (metrics_pass toy_font []))) < 0"
    and "sint (canvas_height (ms_bbox (metrics_pass toy_font []))) < 0"
    by (simp_all add: metrics_pass_empty sentinel_canvas_size)
  with metrics_pass_empty [of toy_font] FreeType_rendering_empty [of toy_font]
  show ?thesis by blast
qed

lemma FreeType_rendering_no_exit:
  "FreeType_rendering load glyphCodepoints \<notin> {Usage_error, FreeType_init_error, Font_load_error}"
  by (simp add: FreeType_rendering_def Let_def split: sum.splits prod.splits)

text \<open>
  C5, as amended. \<open>main\<close> stops early only on the argument count and on the two
  FreeType calls of lines 74 and 80. Past them it shapes whatever \<open>utf8str\<close> holds
  and renders the glyphs; the value of \<open>error\<close> takes no part in the outcome.
\<close>

theorem icu_error_never_read:
  assumes "argc env = 2" and "FT_Init_FreeType env" and "FT_New_Face env"
  shows "main env = FreeType_rendering (FT_Load_Glyph env) (hb_shape env (fst (ICU_reordering env)))
       \<and> main env \<notin> {Usage_error, FreeType_init_error, Font_load_error}"
proof -
  have "main env = FreeType_rendering (FT_Load_Glyph env) (hb_shape env (fst (ICU_reordering env)))"
    using assms by (simp add: main_def Let_def case_prod_beta)
  with FreeType_rendering_no_exit show ?thesis
    by simp
qed

text \<open>
  C5 as amended, for the text U+0623.
\<close>

theorem icu_error_never_read_witness:
  "U_FAILURE (snd (ICU_reordering (toy_environment [0xD8, 0xA3])))  = False
 \<and> main (toy_environment [0xD8, 0xA3]) =
     FreeType_rendering toy_font (hb_shape (toy_environment [0xD8, 0xA3])
        (fst (ICU_reordering (toy_environment [0xD8, 0xA3]))))
 \<and> main (toy_environment [0xD8, 0xA3]) = Printed 3 2 [255, 0, 255, 128, 0, 128]"
proof -
  have e: "argc (toy_environment [0xD8, 0xA3]) = 2" "FT_Init_FreeType (toy_environment [0xD8, 0xA3])"
    "FT_New_Face (toy_environment [0xD8, 0xA3])"
    "FT_Load_Glyph (toy_environment [0xD8, 0xA3]) = toy_font"
    by (simp_all add: toy_environment_def)
  have "U_FAILURE (snd (ICU_reordering (toy_environment [0xD8, 0xA3])))  = False"
    by code_simp
  moreover have "main (toy_environment [0xD8, 0xA3]) = Printed 3 2 [255, 0, 255, 128, 0, 128]"
    by code_simp
  ultimately show ?thesis
    using icu_error_never_read [OF e(1,2,3)] by (simp add: e(4))
qed

text \<open>
  C5 as stated fails: for the text U+2665 \<open>ucnv_fromUChars\<close> reports
  \<open>U_BUFFER_OVERFLOW_ERROR\<close>, and the program goes on to shape the truncated bytes
  and prints an image.
\<close>

theorem icu_error_then_image_counterexample:
  "snd (ICU_reordering (toy_environment heart)) = U_BUFFER_OVERFLOW_ERROR
 \<and> U_FAILURE (snd (ICU_reordering (toy_environment heart)))
 \<and> hb_shape (toy_environment heart) (fst (ICU_reordering (toy_environment heart))) = [226, 153, 0]
 \<and> main (toy_environment heart) = Printed 5 2 [255, 0, 255, 0, 255, 128, 0, 128, 0, 128]"
  by code_simp

text \<open>
  C9. The buffer of line 120 holds two bytes for each UTF-16 code unit, and a code
  unit from U+0800 on takes three. For the text U+2665 the conversion needs three
  bytes and has two: \<open>utf8str\<close> ends up as the first two bytes followed by a zero.
\<close>

theorem utf8_buffer_too_small:
  "UChars_of_utf8 heart = [0x2665]
 \<and> utf8_of_UChars [0x2665] = heart
 \<and> length (utf8_of_UChars [0x2665]) = 3
 \<and> length [0x2665 :: UChar] * 2 = 2
 \<and> ICU_reordering (toy_environment heart) = ([0xE2, 0x99, 0], U_BUFFER_OVERFLOW_ERROR)"
  by code_simp

text \<open>
  The buffer of line 108 is large enough for this converter: UTF-16 never has more
  code units than UTF-8 has bytes.
\<close>

lemma UChars_of_utf8_length:
  "length (UChars_of_utf8 bs) \<le> length bs"
proof (induction bs rule: UChars_of_utf8.induct)
  case 1
  show ?case by simp
next
  case (2 b bs)
  show ?case
  proof (cases "b < 0x80")
    case True
    with 2(1) show ?thesis by simp
  next
    case False
    note nb = this
    show ?thesis
    proof (cases "b < 0xE0")
      case True
      show ?thesis
      proof (cases bs)
        case Nil
        with nb True show ?thesis by simp
      next
        case (Cons b1 rest)
        from 2(2) [OF nb True Cons] nb True Cons show ?thesis by simp
      qed
    next
      case False
      show ?thesis
      proof (cases bs)
        case Nil
        with nb False show ?thesis by simp
      next
        case (Cons b1 bs')
        note c1 = this
        show ?thesis
        proof (cases bs')
          case Nil
          with nb False c1 show ?thesis by simp
        next
          case (Cons b2 rest)
          from 2(3) [OF nb False c1 Cons] nb False c1 Cons show ?thesis by simp
        qed
      qed
    qed
  qed
qed

end
